theory Spec2Isabelle
  imports Main "HOL-Library.List_Lexorder" "HOL-Library.Char_ord" "HOL-Library.Sublist"
begin

chapter \<open>apply\_agentkit: copy plans, placeholder rendering and the gitignore merge\<close>

section \<open>Python values\<close>

text \<open>
  A Python \<open>str\<close> is a sequence of Unicode code points, so a string is a list of
  natural numbers; \<open>py\<close> reads an ASCII literal. Python compares strings code point by
  code point, which is the lexicographic order of \<open>nat list\<close>.
\<close>

type_synonym pystr = "nat list"

definition py :: "string \<Rightarrow> pystr" where
  "py s = map of_char s"

text \<open>
  What \<open>yaml.safe_load\<close> hands to the builder: scalars, lists and mappings. A mapping is
  an association list read with \<open>map_of\<close>; its keys are strings, as the manifest's are.
\<close>

datatype yval =
    YNone
  | YBool bool
  | YInt int
  | YStr pystr
  | YList "yval list"
  | YDict "(pystr \<times> yval) list"

type_synonym dict = "(pystr \<times> yval) list"

text \<open>\<open>d.get(k, default)\<close>, \<open>d.keys()\<close> and \<open>k in d\<close>.\<close>

definition dict_get :: "dict \<Rightarrow> pystr \<Rightarrow> yval \<Rightarrow> yval" where
  "dict_get d k dflt = (case map_of d k of None \<Rightarrow> dflt | Some v \<Rightarrow> v)"

definition dict_keys :: "dict \<Rightarrow> pystr list" where
  "dict_keys d = remdups (map fst d)"

definition dict_has :: "dict \<Rightarrow> pystr \<Rightarrow> bool" where
  "dict_has d k = (map_of d k \<noteq> None)"

text \<open>\<open>bool(v)\<close>: Python's truth value.\<close>

fun truthy :: "yval \<Rightarrow> bool" where
  "truthy YNone = False"
| "truthy (YBool b) = b"
| "truthy (YInt i) = (i \<noteq> 0)"
| "truthy (YStr s) = (s \<noteq> [])"
| "truthy (YList xs) = (xs \<noteq> [])"
| "truthy (YDict d) = (d \<noteq> [])"

text \<open>
  \<open>str(v)\<close> is \<open>v\<close> itself on a string. What Python prints for any other value (its
  \<open>repr\<close>) is left open: the parameter \<open>repr\<close> stands for it.
\<close>

definition py_str :: "(yval \<Rightarrow> pystr) \<Rightarrow> yval \<Rightarrow> pystr" where
  "py_str repr v = (case v of YStr s \<Rightarrow> s | _ \<Rightarrow> repr v)"

section \<open>Errors\<close>

text \<open>
  A path is the list of its components below the root; every raise of the source is a
  value of \<open>error\<close>, the exception class with what its message reports.
\<close>

type_synonym path = "pystr list"

datatype value_error =
    RenderExtensionsMustBeList
  | AgentsMustBeMapping
  | UnknownAgents "pystr list" "pystr list"
  | CommonCopyMustBeList
  | AgentCopyMustBeList pystr
  | CopyItemMustBeMapping yval
  | CopyItemRequiresSrcDst yval
  | EmbeddedNullByte

datatype not_found =
    MissingSnippet path
  | MissingDir path
  | MissingFile path
  | NoSuchFile path

datatype error =
    ValueError value_error
  | AttributeError
  | KeyError pystr
  | FileNotFoundError not_found
  | FileExistsError path
  | NotADirectoryError path
  | IsADirectoryError path
  | SameFileError path
  | UnicodeDecodeError
  | UnicodeEncodeError

section \<open>The copy plan\<close>

text \<open>What \<open>Path.resolve\<close> refuses in a string, and the exception it raises for it.\<close>

datatype path_error = NulCharacter | LoneSurrogate

fun resolve_error :: "path_error \<Rightarrow> error" where
  "resolve_error NulCharacter = ValueError EmbeddedNullByte"
| "resolve_error LoneSurrogate = UnicodeEncodeError"

record CopyItem =
  src :: path
  dst :: path
  mode :: pystr
  optional :: bool

text \<open>
  \<open>parse_copy_item\<close>. \<open>(root / s).resolve()\<close> is pathlib's: it follows the symbolic
  links of the file system, and it raises on a string that is no path (\<open>ValueError\<close> on a
  NUL character, \<open>UnicodeEncodeError\<close> on a lone surrogate). The parameter \<open>locate\<close>
  stands for it, with \<open>Inl\<close> for what it refuses; \<open>src\<close> is resolved before \<open>dst\<close>.
\<close>

definition parse_copy_item ::
  "(yval \<Rightarrow> pystr) \<Rightarrow> (path \<Rightarrow> pystr \<Rightarrow> path_error + path) \<Rightarrow> path \<Rightarrow> path \<Rightarrow> yval \<Rightarrow>
     error + CopyItem" where
  "parse_copy_item repr locate kit_root dest_root obj =
     (case obj of
        YDict d \<Rightarrow>
          (let s = dict_get d (py ''src'') YNone;
               t = dict_get d (py ''dst'') YNone;
               m = dict_get d (py ''mode'') (YStr (py ''copy''));
               opt = truthy (dict_get d (py ''optional'') (YBool False))
           in (case s of
                 YStr s' \<Rightarrow>
                   (case t of
                      YStr t' \<Rightarrow>
                        (case locate kit_root s' of
                           Inl e \<Rightarrow> Inl (resolve_error e)
                         | Inr sp \<Rightarrow>
                             (case locate dest_root t' of
                                Inl e \<Rightarrow> Inl (resolve_error e)
                              | Inr dp \<Rightarrow>
                                  Inr \<lparr>src = sp, dst = dp, mode = py_str repr m,
                                       optional = opt\<rparr>))
                    | _ \<Rightarrow> Inl (ValueError (CopyItemRequiresSrcDst obj)))
               | _ \<Rightarrow> Inl (ValueError (CopyItemRequiresSrcDst obj))))
      | _ \<Rightarrow> Inl (ValueError (CopyItemMustBeMapping obj)))"

text \<open>
  The two loops of \<open>build_copy_plan\<close>; \<open>items\<close> is the list they append to. The first
  error ends the loop.
\<close>

fun append_items ::
  "(yval \<Rightarrow> pystr) \<Rightarrow> (path \<Rightarrow> pystr \<Rightarrow> path_error + path) \<Rightarrow> path \<Rightarrow> path \<Rightarrow>
     CopyItem list \<Rightarrow> yval list \<Rightarrow> error + CopyItem list" where
  "append_items repr locate kit_root dest_root items [] = Inr items"
| "append_items repr locate kit_root dest_root items (it # its) =
     (case parse_copy_item repr locate kit_root dest_root it of
        Inl e \<Rightarrow> Inl e
      | Inr c \<Rightarrow> append_items repr locate kit_root dest_root (items @ [c]) its)"

fun append_agents ::
  "(yval \<Rightarrow> pystr) \<Rightarrow> (path \<Rightarrow> pystr \<Rightarrow> path_error + path) \<Rightarrow> path \<Rightarrow> path \<Rightarrow> dict \<Rightarrow>
     CopyItem list \<Rightarrow> pystr list \<Rightarrow> error + CopyItem list" where
  "append_agents repr locate kit_root dest_root agents_map items [] = Inr items"
| "append_agents repr locate kit_root dest_root agents_map items (agent # rest) =
     (case map_of agents_map agent of
        None \<Rightarrow> Inl (KeyError agent)
      | Some agent_block \<Rightarrow>
          (case agent_block of
             YDict b \<Rightarrow>
               (case dict_get b (py ''copy'') (YList []) of
                  YList copy_list \<Rightarrow>
                    (case append_items repr locate kit_root dest_root items copy_list of
                       Inl e \<Rightarrow> Inl e
                     | Inr items' \<Rightarrow>
                         append_agents repr locate kit_root dest_root agents_map items' rest)
                | _ \<Rightarrow> Inl (ValueError (AgentCopyMustBeList agent)))
           | _ \<Rightarrow> Inl AttributeError))"

fun is_list :: "yval \<Rightarrow> bool" where
  "is_list (YList xs) = True"
| "is_list v = False"

definition build_copy_plan ::
  "(yval \<Rightarrow> pystr) \<Rightarrow> (path \<Rightarrow> pystr \<Rightarrow> path_error + path) \<Rightarrow> path \<Rightarrow> path \<Rightarrow> dict \<Rightarrow> pystr list \<Rightarrow>
     error + (CopyItem list \<times> pystr list)" where
  "build_copy_plan repr locate kit_root dest_root manifest agents_selected =
     (if \<not> is_list (dict_get manifest (py ''render_extensions'') (YList []))
      then Inl (ValueError RenderExtensionsMustBeList)
      else
        (case dict_get manifest (py ''agents'') (YDict []) of
           YDict agents_map \<Rightarrow>
             (let available_agents = sort (dict_keys agents_map) in
                (case (if agents_selected = [py ''all''] then Inr available_agents
                       else (let unknown = filter (\<lambda>a. \<not> dict_has agents_map a) agents_selected
                             in if unknown \<noteq> []
                                then Inl (ValueError (UnknownAgents unknown available_agents))
                                else Inr agents_selected)) of
                   Inl e \<Rightarrow> Inl e
                 | Inr chosen \<Rightarrow>
                     (case dict_get manifest (py ''common'') (YDict []) of
                        YDict common \<Rightarrow>
                          (case dict_get common (py ''copy'') (YList []) of
                             YList common_copy \<Rightarrow>
                               (case append_items repr locate kit_root dest_root [] common_copy of
                                  Inl e \<Rightarrow> Inl e
                                | Inr items \<Rightarrow>
                                    (case append_agents repr locate kit_root dest_root
                                            agents_map items chosen of
                                       Inl e \<Rightarrow> Inl e
                                     | Inr items' \<Rightarrow> Inr (items', available_agents)))
                           | _ \<Rightarrow> Inl (ValueError CommonCopyMustBeList))
                      | _ \<Rightarrow> Inl AttributeError)))
         | _ \<Rightarrow> Inl (ValueError AgentsMustBeMapping)))"

text \<open>
  The entries of a block's \<open>copy\<close> list: defined when the block is a mapping whose
  \<open>copy\<close>, if it has one, is a list.
\<close>

definition copy_entries :: "yval \<Rightarrow> yval list option" where
  "copy_entries block =
     (case block of
        YDict b \<Rightarrow> (case dict_get b (py ''copy'') (YList []) of YList l \<Rightarrow> Some l | _ \<Rightarrow> None)
      | _ \<Rightarrow> None)"

definition agent_entries :: "dict \<Rightarrow> pystr \<Rightarrow> yval list option" where
  "agent_entries agents_map a =
     (case map_of agents_map a of None \<Rightarrow> None | Some block \<Rightarrow> copy_entries block)"

text \<open>
  A well-formed manifest, after the schema of the manifest document: \<open>render_extensions\<close>
  a list, \<open>common\<close> and every agent a mapping whose \<open>copy\<close> is a list of mappings with
  string \<open>src\<close> and \<open>dst\<close>, and \<open>agents\<close> a mapping. A key that is left out has the
  builder's default.
\<close>

fun is_str :: "yval \<Rightarrow> bool" where
  "is_str (YStr s) = True"
| "is_str v = False"

definition valid_entry :: "yval \<Rightarrow> bool" where
  "valid_entry obj =
     (case obj of
        YDict d \<Rightarrow> is_str (dict_get d (py ''src'') YNone) \<and> is_str (dict_get d (py ''dst'') YNone)
      | _ \<Rightarrow> False)"

definition valid_block :: "yval \<Rightarrow> bool" where
  "valid_block block =
     (case copy_entries block of None \<Rightarrow> False | Some l \<Rightarrow> list_all valid_entry l)"

definition well_formed :: "dict \<Rightarrow> bool" where
  "well_formed manifest =
     (is_list (dict_get manifest (py ''render_extensions'') (YList [])) \<and>
      valid_block (dict_get manifest (py ''common'') (YDict [])) \<and>
      (case dict_get manifest (py ''agents'') (YDict []) of
         YDict agents_map \<Rightarrow>
           list_all (\<lambda>a. valid_block (dict_get agents_map a YNone)) (dict_keys agents_map)
       | _ \<Rightarrow> False))"

text \<open>The agents a selection chooses: every agent, sorted, for the sentinel.\<close>

definition chosen_agents :: "dict \<Rightarrow> pystr list \<Rightarrow> pystr list" where
  "chosen_agents agents_map agents_selected =
     (if agents_selected = [py ''all''] then sort (dict_keys agents_map) else agents_selected)"

text \<open>A manifest and a selection to run the builder on.\<close>

definition entry :: "string \<Rightarrow> string \<Rightarrow> yval" where
  "entry s t = YDict [(py ''src'', YStr (py s)), (py ''dst'', YStr (py t))]"

definition demo_manifest :: dict where
  "demo_manifest =
     [(py ''render_extensions'', YList [YStr (py ''.md'')]),
      (py ''common'', YDict [(py ''copy'', YList [entry ''AGENT.md'' ''AGENT.md''])]),
      (py ''agents'', YDict
         [(py ''trae'', YDict [(py ''copy'', YList [entry ''trae/rules.md'' ''.trae/rules.md''])]),
          (py ''antigravity'', YDict [(py ''copy'', YList [entry ''ag/a.md'' ''a.md'',
                                                            entry ''ag/b.md'' ''b.md''])])])]"

text \<open>
  \<open>resolve()\<close> on a POSIX system where no component is a symbolic link: the string is
  split at \<open>/\<close>, an absolute string replaces the root, empty components and \<open>.\<close> are
  dropped and \<open>..\<close> goes one level up. A NUL character and a surrogate that is not an
  escaped byte are refused.
\<close>

fun split_slash :: "pystr \<Rightarrow> pystr \<Rightarrow> pystr list" where
  "split_slash cur [] = [cur]"
| "split_slash cur (c # cs) =
     (if c = 47 then cur # split_slash [] cs else split_slash (cur @ [c]) cs)"

fun normalise :: "path \<Rightarrow> pystr list \<Rightarrow> path" where
  "normalise acc [] = acc"
| "normalise acc (c # cs) =
     (if c = [] \<or> c = [46] then normalise acc cs
      else if c = [46, 46] then normalise (butlast acc) cs
      else normalise (acc @ [c]) cs)"

definition demo_locate :: "path \<Rightarrow> pystr \<Rightarrow> path_error + path" where
  "demo_locate root s =
     (if 0 \<in> set s then Inl NulCharacter
      else if list_ex (\<lambda>c. 55296 \<le> c \<and> c < 57344 \<and> \<not> (56448 \<le> c \<and> c < 56576)) s
      then Inl LoneSurrogate
      else Inr (normalise (if s \<noteq> [] \<and> hd s = 47 then [] else root) (split_slash [] s)))"

definition demo_item :: "string list \<Rightarrow> string list \<Rightarrow> CopyItem" where
  "demo_item s t =
     \<lparr>src = py ''kit'' # map py s, dst = py ''repo'' # map py t, mode = py ''copy'',
      optional = False\<rparr>"

text \<open>
  The paths of an entry resolve: \<open>locate\<close> raises neither on its \<open>src\<close> nor on its
  \<open>dst\<close>.
\<close>

definition resolves :: "(path \<Rightarrow> pystr \<Rightarrow> path_error + path) \<Rightarrow> path \<Rightarrow> path \<Rightarrow> yval \<Rightarrow> bool" where
  "resolves locate kit_root dest_root obj =
     (case obj of
        YDict d \<Rightarrow>
          (case dict_get d (py ''src'') YNone of
             YStr s \<Rightarrow> (case locate kit_root s of Inl e \<Rightarrow> False | Inr p \<Rightarrow> True)
           | _ \<Rightarrow> True) \<and>
          (case dict_get d (py ''dst'') YNone of
             YStr t \<Rightarrow> (case locate dest_root t of Inl e \<Rightarrow> False | Inr p \<Rightarrow> True)
           | _ \<Rightarrow> True)
      | _ \<Rightarrow> True)"

definition no_repr :: "yval \<Rightarrow> pystr" where
  "no_repr v = []"

section \<open>Text\<close>

subsection \<open>UTF-8\<close>

text \<open>
  A file holds bytes. \<open>read_text(encoding="utf-8")\<close> decodes them strictly: overlong
  forms, surrogates, code points past \<open>0x10FFFF\<close> and stray continuation bytes are
  refused (\<open>UnicodeDecodeError\<close>, here \<open>None\<close>). Writing text encodes it; a lone
  surrogate cannot be encoded (\<open>UnicodeEncodeError\<close>).
\<close>

type_synonym bytes = "nat list"

definition is_cont :: "nat \<Rightarrow> bool" where
  "is_cont b = (128 \<le> b \<and> b < 192)"

fun decode_utf8 :: "bytes \<Rightarrow> pystr option" where
  "decode_utf8 [] = Some []"
| "decode_utf8 (b0 # bs) =
     (if b0 < 128 then map_option ((#) b0) (decode_utf8 bs)
      else if 194 \<le> b0 \<and> b0 < 224 then
        (case bs of
           b1 # r \<Rightarrow>
             if is_cont b1
             then map_option ((#) ((b0 - 192) * 64 + (b1 - 128))) (decode_utf8 r)
             else None
         | _ \<Rightarrow> None)
      else if 224 \<le> b0 \<and> b0 < 240 then
        (case bs of
           b1 # b2 # r \<Rightarrow>
             if is_cont b1 \<and> is_cont b2 \<and> (if b0 = 224 then 160 \<le> b1 else True) \<and>
                (if b0 = 237 then b1 < 160 else True)
             then map_option ((#) ((b0 - 224) * 4096 + (b1 - 128) * 64 + (b2 - 128)))
                    (decode_utf8 r)
             else None
         | _ \<Rightarrow> None)
      else if 240 \<le> b0 \<and> b0 < 245 then
        (case bs of
           b1 # b2 # b3 # r \<Rightarrow>
             if is_cont b1 \<and> is_cont b2 \<and> is_cont b3 \<and>
                (if b0 = 240 then 144 \<le> b1 else True) \<and>
                (if b0 = 244 then b1 < 144 else True)
             then map_option
                    ((#) ((b0 - 240) * 262144 + (b1 - 128) * 4096 + (b2 - 128) * 64 + (b3 - 128)))
                    (decode_utf8 r)
             else None
         | _ \<Rightarrow> None)
      else None)"

definition encodable :: "nat \<Rightarrow> bool" where
  "encodable c = (c < 1114112 \<and> \<not> (55296 \<le> c \<and> c < 57344))"

definition encode_char :: "nat \<Rightarrow> bytes" where
  "encode_char c =
     (if c < 128 then [c]
      else if c < 2048 then [192 + c div 64, 128 + c mod 64]
      else if c < 65536 then [224 + c div 4096, 128 + (c div 64) mod 64, 128 + c mod 64]
      else [240 + c div 262144, 128 + (c div 4096) mod 64, 128 + (c div 64) mod 64,
            128 + c mod 64])"

definition encode_utf8 :: "pystr \<Rightarrow> bytes option" where
  "encode_utf8 s = (if list_all encodable s then Some (concat (map encode_char s)) else None)"


subsection \<open>Whitespace and lines\<close>

text \<open>
  The characters \<open>str.strip\<close>, \<open>str.isspace\<close> and the pattern \<open>\s\<close> take for
  whitespace, and the ones \<open>str.splitlines\<close> breaks lines at.
\<close>

definition is_space :: "nat \<Rightarrow> bool" where
  "is_space c =
     (9 \<le> c \<and> c \<le> 13 \<or> 28 \<le> c \<and> c \<le> 32 \<or> c = 133 \<or> c = 160 \<or> c = 5760 \<or>
      8192 \<le> c \<and> c \<le> 8202 \<or> c = 8232 \<or> c = 8233 \<or> c = 8239 \<or> c = 8287 \<or> c = 12288)"

definition is_linebreak :: "nat \<Rightarrow> bool" where
  "is_linebreak c =
     (10 \<le> c \<and> c \<le> 13 \<or> 28 \<le> c \<and> c \<le> 30 \<or> c = 133 \<or> c = 8232 \<or> c = 8233)"

definition strip :: "pystr \<Rightarrow> pystr" where
  "strip s = rev (dropWhile is_space (rev (dropWhile is_space s)))"

text \<open>A line feed that follows a carriage return belongs to the same line break.\<close>

fun drop_lf :: "pystr \<Rightarrow> pystr" where
  "drop_lf [] = []"
| "drop_lf (c # cs) = (if c = 10 then cs else c # cs)"

lemma length_drop_lf: "length (drop_lf cs) \<le> length cs"
  by (cases cs) auto

text \<open>
  \<open>str.splitlines()\<close>: \<open>cur\<close> is the line read so far. A line break ends the line; the
  text after the last break is a line when it is not empty.
\<close>

function split_from :: "pystr \<Rightarrow> pystr \<Rightarrow> pystr list" where
  "split_from cur [] = (if cur = [] then [] else [cur])"
| "split_from cur (c # cs) =
     (if is_linebreak c
      then cur # split_from [] (if c = 13 then drop_lf cs else cs)
      else split_from (cur @ [c]) cs)"
  by pat_completeness auto
termination
  by (relation "measure (\<lambda>(cur, s). length s)") (auto simp: length_drop_lf less_Suc_eq_le)

definition splitlines :: "pystr \<Rightarrow> pystr list" where
  "splitlines s = split_from [] s"

text \<open>
  Reading in text mode with \<open>newline=None\<close> hands \<open>\r\n\<close> and \<open>\r\<close> to the caller as
  \<open>\n\<close>. Writing leaves \<open>\n\<close> as it is (the line separator of a POSIX system).
\<close>

function universal_newlines :: "pystr \<Rightarrow> pystr" where
  "universal_newlines [] = []"
| "universal_newlines (c # cs) =
     (if c = 13 then 10 # universal_newlines (drop_lf cs) else c # universal_newlines cs)"
  by pat_completeness auto
termination
  by (relation "measure length") (auto simp: length_drop_lf less_Suc_eq_le)

text \<open>\<open>"\n".join(xs)\<close>.\<close>

fun join_nl :: "pystr list \<Rightarrow> pystr" where
  "join_nl [] = []"
| "join_nl [x] = x"
| "join_nl (x # y # ys) = x @ 10 # join_nl (y # ys)"

text \<open>
  A line feed after text that does not end in a line break ends its last line; after a
  carriage return it is part of that break; after another line break it gives an empty
  line.
\<close>

definition tail_blank :: "pystr \<Rightarrow> pystr list" where
  "tail_blank a = (if is_linebreak (last a) \<and> last a \<noteq> 13 then [[]] else [])"

subsection \<open>Placeholders\<close>

text \<open>
  \<open>PLACEHOLDER\<close> is the pattern \<^verbatim>\<open>\{\{\s*([A-Z0-9_]+)\s*\}\}\<close>. Whitespace, the
  characters of a name and the closing brace are disjoint classes, so the greedy match
  is the only one: after \<open>{{\<close> all the whitespace, then all the name characters, then
  all the whitespace, then \<open>}}\<close>. A match at the head of \<open>s\<close> yields group 1, group 0 and
  the text after the match.
\<close>

definition is_name_char :: "nat \<Rightarrow> bool" where
  "is_name_char c = (65 \<le> c \<and> c \<le> 90 \<or> 48 \<le> c \<and> c \<le> 57 \<or> c = 95)"

definition match_placeholder :: "pystr \<Rightarrow> (pystr \<times> pystr \<times> pystr) option" where
  "match_placeholder s =
     (case s of
        a # b # r \<Rightarrow>
          if a = 123 \<and> b = 123
          then (let ws1 = takeWhile is_space r;
                    r1 = dropWhile is_space r;
                    key = takeWhile is_name_char r1;
                    r2 = dropWhile is_name_char r1;
                    ws2 = takeWhile is_space r2;
                    r3 = dropWhile is_space r2
                in (case r3 of
                      x # y # rest \<Rightarrow>
                        if key \<noteq> [] \<and> x = 125 \<and> y = 125
                        then Some (key, [123, 123] @ ws1 @ key @ ws2 @ [125, 125], rest)
                        else None
                    | _ \<Rightarrow> None))
          else None
      | _ \<Rightarrow> None)"

lemma match_placeholder_shorter:
  "match_placeholder s = Some (key, whole, rest) \<Longrightarrow> length rest < length s"
proof -
  have d: "length (dropWhile P xs) \<le> length xs" for P and xs :: pystr
    by (rule length_dropWhile_le)
  assume m: "match_placeholder s = Some (key, whole, rest)"
  then obtain a b r where s: "s = a # b # r"
    by (cases s; cases "tl s") (auto simp: match_placeholder_def)
  define r3 where "r3 = dropWhile is_space (dropWhile is_name_char (dropWhile is_space r))"
  have "length r3 \<le> length r"
    unfolding r3_def using d [of is_space "dropWhile is_name_char (dropWhile is_space r)"]
      d [of is_name_char "dropWhile is_space r"] d [of is_space r]
    by linarith
  moreover from m have "\<exists>x y. r3 = x # y # rest"
    unfolding s r3_def
    by (auto simp: match_placeholder_def Let_def split: if_splits list.splits)
  ultimately show ?thesis unfolding s by auto
qed

text \<open>
  \<open>PLACEHOLDER.sub(repl, content)\<close> scans from the left: at a match, \<open>repl\<close> gives the
  value of the name or, for a name that is not a key, the match itself, and the scan
  goes on after the match; elsewhere the character is kept.
\<close>

function render_text :: "pystr \<Rightarrow> (pystr \<rightharpoonup> pystr) \<Rightarrow> pystr" where
  "render_text [] variables = []"
| "render_text (c # cs) variables =
     (case match_placeholder (c # cs) of
        None \<Rightarrow> c # render_text cs variables
      | Some (key, whole, rest) \<Rightarrow>
          (case variables key of None \<Rightarrow> whole | Some v \<Rightarrow> v) @ render_text rest variables)"
  by pat_completeness auto
termination
  by (relation "measure (\<lambda>(s, variables). length s)")
    (auto dest: match_placeholder_shorter)

text \<open>
  A placeholder as the specification describes it: \<open>{{\<close>, whitespace, the name,
  whitespace, \<open>}}\<close>.
\<close>

definition placeholder :: "pystr \<Rightarrow> pystr \<Rightarrow> pystr \<Rightarrow> pystr" where
  "placeholder lead name trail = [123, 123] @ lead @ name @ trail @ [125, 125]"

section \<open>Files\<close>

text \<open>
  The file system is a tree: a regular file holds bytes and its metadata (permission
  bits and modification time), a directory maps names to nodes. The root is a
  directory. Symbolic links, owners and access rights are not part of the model, and a
  directory carries no metadata. The world of a run is the tree, what the run has
  printed, and \<open>fresh\<close>: the metadata the system gives a file that is written now (the
  creation mode under the umask, and the current time).
\<close>

record meta =
  perm :: nat
  mtime :: nat

datatype node =
    File bytes meta
  | Dir "pystr \<Rightarrow> node option"

datatype notice =
    Skip path
  | Render path
  | Copy path
  | MergeNoChanges
  | Merge path nat
  | OptionalMissing path

record world =
  root :: "pystr \<Rightarrow> node option"
  stdout :: "notice list"
  fresh :: meta

fun lookup :: "node \<Rightarrow> path \<Rightarrow> node option" where
  "lookup n [] = Some n"
| "lookup (File b m) (c # cs) = None"
| "lookup (Dir ch) (c # cs) = (case ch c of None \<Rightarrow> None | Some k \<Rightarrow> lookup k cs)"

text \<open>
  \<open>store n p x\<close> puts \<open>x\<close> at \<open>p\<close> below \<open>n\<close>, in place of what is there; nothing
  changes when the parent of \<open>p\<close> is not a directory.
\<close>

fun store :: "node \<Rightarrow> path \<Rightarrow> node \<Rightarrow> node" where
  "store n [] x = x"
| "store (File b m) (c # cs) x = File b m"
| "store (Dir ch) [c] x = Dir (ch(c \<mapsto> x))"
| "store (Dir ch) (c # d # cs) x =
     (case ch c of None \<Rightarrow> Dir ch | Some k \<Rightarrow> Dir (ch(c \<mapsto> store k (d # cs) x)))"

definition stat :: "world \<Rightarrow> path \<Rightarrow> node option" where
  "stat w p = lookup (Dir (root w)) p"

definition put :: "path \<Rightarrow> node \<Rightarrow> world \<Rightarrow> world" where
  "put p x w = (case store (Dir (root w)) p x of Dir ch \<Rightarrow> w\<lparr>root := ch\<rparr> | File b m \<Rightarrow> w)"

text \<open>\<open>Path.exists\<close>, \<open>Path.is_dir\<close>, \<open>Path.parent\<close> and \<open>print\<close>.\<close>

definition exists :: "world \<Rightarrow> path \<Rightarrow> bool" where
  "exists w p = (stat w p \<noteq> None)"

definition is_dir :: "world \<Rightarrow> path \<Rightarrow> bool" where
  "is_dir w p = (case stat w p of Some (Dir ch) \<Rightarrow> True | _ \<Rightarrow> False)"

definition parent :: "path \<Rightarrow> path" where
  "parent p = butlast p"

definition print :: "notice \<Rightarrow> world \<Rightarrow> world" where
  "print n w = w\<lparr>stdout := stdout w @ [n]\<rparr>"

text \<open>
  The error of a system call on a path that is not there: \<open>ENOTDIR\<close> when a regular
  file stands where the path needs a directory, \<open>ENOENT\<close> otherwise.
\<close>

fun below_file :: "node \<Rightarrow> path \<Rightarrow> bool" where
  "below_file n [] = False"
| "below_file (File b m) (c # cs) = True"
| "below_file (Dir ch) (c # cs) = (case ch c of None \<Rightarrow> False | Some k \<Rightarrow> below_file k cs)"

definition absent_error :: "world \<Rightarrow> path \<Rightarrow> error" where
  "absent_error w p =
     (if below_file (Dir (root w)) p then NotADirectoryError p
      else FileNotFoundError (NoSuchFile p))"

text \<open>\<open>os.mkdir\<close>.\<close>

definition os_mkdir :: "path \<Rightarrow> world \<Rightarrow> error + world" where
  "os_mkdir p w =
     (case stat w p of
        Some n \<Rightarrow> Inl (FileExistsError p)
      | None \<Rightarrow>
          (case stat w (parent p) of
             Some (Dir ch) \<Rightarrow> Inr (put p (Dir Map.empty) w)
           | _ \<Rightarrow> Inl (absent_error w p)))"

text \<open>
  \<open>Path.mkdir(parents=False, exist_ok=True)\<close> and \<open>Path.mkdir(parents=True,
  exist_ok=True)\<close>, after pathlib: a missing parent is made first, and an error other than
  \<open>FileNotFoundError\<close> is dropped when the path is a directory.
\<close>

definition mkdir_exist_ok :: "path \<Rightarrow> world \<Rightarrow> error + world" where
  "mkdir_exist_ok p w =
     (case os_mkdir p w of
        Inr w' \<Rightarrow> Inr w'
      | Inl (FileNotFoundError x) \<Rightarrow> Inl (FileNotFoundError x)
      | Inl e \<Rightarrow> if is_dir w p then Inr w else Inl e)"

function mkdir_parents :: "path \<Rightarrow> world \<Rightarrow> error + world" where
  "mkdir_parents p w =
     (case os_mkdir p w of
        Inr w' \<Rightarrow> Inr w'
      | Inl (FileNotFoundError x) \<Rightarrow>
          if parent p = p then Inl (FileNotFoundError x)
          else (case mkdir_parents (parent p) w of
                  Inl e \<Rightarrow> Inl e
                | Inr w1 \<Rightarrow> mkdir_exist_ok p w1)
      | Inl e \<Rightarrow> if is_dir w p then Inr w else Inl e)"
  by pat_completeness auto
termination
proof (relation "measure (\<lambda>(p, w). length p)")
  show "wf (measure (\<lambda>(p, w). length p))" by simp
next
  fix p :: path and w :: world and a x
  assume "parent p \<noteq> p"
  then have "p \<noteq> []" by (auto simp: parent_def)
  then show "((parent p, w), (p, w)) \<in> measure (\<lambda>(p, w). length p)"
    by (simp add: parent_def)
qed

declare mkdir_parents.simps [simp del]

text \<open>
  A procedure of the source returns nothing: it ends normally or raises, and what it
  did before raising stays done. Its model returns the error, if any, and the world.
\<close>

type_synonym outcome = "error option \<times> world"

definition ensure_parent :: "path \<Rightarrow> world \<Rightarrow> outcome" where
  "ensure_parent p w =
     (case mkdir_parents (parent p) w of Inl e \<Rightarrow> (Some e, w) | Inr w' \<Rightarrow> (None, w'))"

text \<open>Reading: \<open>Path.read_text(encoding="utf-8")\<close>.\<close>

definition read_bytes :: "world \<Rightarrow> path \<Rightarrow> error + bytes" where
  "read_bytes w p =
     (case stat w p of
        None \<Rightarrow> Inl (absent_error w p)
      | Some (Dir ch) \<Rightarrow> Inl (IsADirectoryError p)
      | Some (File b m) \<Rightarrow> Inr b)"

definition read_text :: "world \<Rightarrow> path \<Rightarrow> error + pystr" where
  "read_text w p =
     (case read_bytes w p of
        Inl e \<Rightarrow> Inl e
      | Inr b \<Rightarrow>
          (case decode_utf8 b of
             None \<Rightarrow> Inl UnicodeDecodeError
           | Some s \<Rightarrow> Inr (universal_newlines s)))"

text \<open>
  Writing. \<open>open_file trunc p\<close> is \<open>open(p, "w")\<close> or, with \<open>trunc\<close> false,
  \<open>open(p, "a")\<close>: the file is made when it is missing, and emptied when \<open>trunc\<close>.
  \<open>append_bytes\<close> writes at the end of an open file; \<open>write_str\<close> is \<open>f.write(s)\<close> on a
  text file.
\<close>

definition open_file :: "bool \<Rightarrow> path \<Rightarrow> world \<Rightarrow> error + world" where
  "open_file trunc p w =
     (case stat w p of
        Some (Dir ch) \<Rightarrow> Inl (IsADirectoryError p)
      | Some (File b m) \<Rightarrow>
          Inr (if trunc then put p (File [] (m\<lparr>mtime := mtime (fresh w)\<rparr>)) w else w)
      | None \<Rightarrow>
          (case stat w (parent p) of
             Some (Dir ch) \<Rightarrow> Inr (put p (File [] (fresh w)) w)
           | _ \<Rightarrow> Inl (absent_error w p)))"

definition append_bytes :: "path \<Rightarrow> bytes \<Rightarrow> world \<Rightarrow> world" where
  "append_bytes p data w =
     (case stat w p of
        Some (File b m) \<Rightarrow> put p (File (b @ data) (m\<lparr>mtime := mtime (fresh w)\<rparr>)) w
      | _ \<Rightarrow> w)"

definition write_str :: "path \<Rightarrow> pystr \<Rightarrow> world \<Rightarrow> outcome" where
  "write_str p s w =
     (case encode_utf8 s of
        None \<Rightarrow> (Some UnicodeEncodeError, w)
      | Some data \<Rightarrow> (None, append_bytes p data w))"

definition write_text :: "path \<Rightarrow> pystr \<Rightarrow> world \<Rightarrow> outcome" where
  "write_text p s w =
     (case open_file True p w of
        Inl e \<Rightarrow> (Some e, w)
      | Inr w1 \<Rightarrow> write_str p s w1)"

text \<open>
  \<open>shutil.copystat\<close> and \<open>shutil.copy2\<close>: a copy into a directory goes to the source's
  name inside it, and a file is not copied onto itself.
\<close>

definition copystat :: "path \<Rightarrow> path \<Rightarrow> world \<Rightarrow> error + world" where
  "copystat s d w =
     (case stat w s of
        None \<Rightarrow> Inl (absent_error w s)
      | Some (Dir ch) \<Rightarrow> (if exists w d then Inr w else Inl (absent_error w d))
      | Some (File sb sm) \<Rightarrow>
          (case stat w d of
             None \<Rightarrow> Inl (absent_error w d)
           | Some (Dir ch) \<Rightarrow> Inr w
           | Some (File db dm) \<Rightarrow> Inr (put d (File db sm) w)))"

definition copyfile :: "path \<Rightarrow> path \<Rightarrow> world \<Rightarrow> error + world" where
  "copyfile s d w =
     (if s = d \<and> exists w s then Inl (SameFileError s)
      else
        (case read_bytes w s of
           Inl e \<Rightarrow> Inl e
         | Inr data \<Rightarrow>
             (case open_file True d w of
                Inl e \<Rightarrow> Inl e
              | Inr w1 \<Rightarrow> Inr (append_bytes d data w1))))"

definition copy2 :: "path \<Rightarrow> path \<Rightarrow> world \<Rightarrow> error + world" where
  "copy2 s d w =
     (let d' = (if is_dir w d then (if s = [] then d else d @ [last s]) else d)
      in (case copyfile s d' w of
            Inl e \<Rightarrow> Inl e
          | Inr w1 \<Rightarrow> copystat s d' w1))"

section \<open>Copying and merging\<close>

text \<open>
  \<open>copy_file\<close>. The \<open>try\<close> block reads, renders, writes, copies the metadata and
  prints; \<open>UnicodeDecodeError\<close> leaves it for the raw copy that also serves a file that
  is not rendered.
\<close>

definition render_copy :: "path \<Rightarrow> path \<Rightarrow> (pystr \<rightharpoonup> pystr) \<Rightarrow> world \<Rightarrow> outcome" where
  "render_copy s d variables w =
     (case read_text w s of
        Inl e \<Rightarrow> (Some e, w)
      | Inr txt \<Rightarrow>
          (case write_text d (render_text txt variables) w of
             (Some e, w1) \<Rightarrow> (Some e, w1)
           | (None, w1) \<Rightarrow>
               (case copystat s d w1 of
                  Inl e \<Rightarrow> (Some e, w1)
                | Inr w2 \<Rightarrow> (None, print (Render d) w2))))"

definition raw_copy :: "path \<Rightarrow> path \<Rightarrow> world \<Rightarrow> outcome" where
  "raw_copy s d w =
     (case copy2 s d w of
        Inl e \<Rightarrow> (Some e, w)
      | Inr w1 \<Rightarrow> (None, print (Copy d) w1))"

definition copy_file ::
  "path \<Rightarrow> path \<Rightarrow> bool \<Rightarrow> bool \<Rightarrow> (pystr \<rightharpoonup> pystr) \<Rightarrow> world \<Rightarrow> outcome" where
  "copy_file s d force render variables w =
     (case ensure_parent d w of
        (Some e, w1) \<Rightarrow> (Some e, w1)
      | (None, w1) \<Rightarrow>
          if exists w1 d \<and> \<not> force then (None, print (Skip d) w1)
          else if render then
            (case render_copy s d variables w1 of
               (Some UnicodeDecodeError, w2) \<Rightarrow> raw_copy s d w2
             | r \<Rightarrow> r)
          else raw_copy s d w1)"

text \<open>
  \<open>merge_gitignore\<close>. \<open>to_add\<close> is the list the source builds under that name; the
  overwrite flag is taken and not read.
\<close>

definition to_add :: "pystr list \<Rightarrow> pystr list \<Rightarrow> pystr list" where
  "to_add snippet existing = filter (\<lambda>line. strip line \<noteq> [] \<and> line \<notin> set existing) snippet"

definition separator :: "pystr list \<Rightarrow> pystr" where
  "separator existing = (if existing \<noteq> [] \<and> last existing \<noteq> [] then [10] else [])"

definition merge_gitignore :: "path \<Rightarrow> path \<Rightarrow> bool \<Rightarrow> world \<Rightarrow> outcome" where
  "merge_gitignore snippet_src gitignore_dst force w =
     (case ensure_parent gitignore_dst w of
        (Some e, w1) \<Rightarrow> (Some e, w1)
      | (None, w1) \<Rightarrow>
          (case read_text w1 snippet_src of
             Inl e \<Rightarrow> (Some e, w1)
           | Inr stext \<Rightarrow>
               (case (if exists w1 gitignore_dst
                      then (case read_text w1 gitignore_dst of
                              Inl e \<Rightarrow> Inl e
                            | Inr dtext \<Rightarrow> Inr (splitlines dtext))
                      else Inr []) of
                  Inl e \<Rightarrow> (Some e, w1)
                | Inr existing \<Rightarrow>
                    if to_add (splitlines stext) existing = []
                    then (None, print MergeNoChanges w1)
                    else
                      (case open_file False gitignore_dst w1 of
                         Inl e \<Rightarrow> (Some e, w1)
                       | Inr w2 \<Rightarrow>
                           (case (if existing \<noteq> [] \<and> last existing \<noteq> []
                                  then write_str gitignore_dst [10] w2 else (None, w2)) of
                              (Some e, w3) \<Rightarrow> (Some e, w3)
                            | (None, w3) \<Rightarrow>
                                (case write_str gitignore_dst
                                        (join_nl (to_add (splitlines stext) existing) @ [10]) w3 of
                                   (Some e, w4) \<Rightarrow> (Some e, w4)
                                 | (None, w4) \<Rightarrow>
                                     (None,
                                      print (Merge gitignore_dst
                                               (length (to_add (splitlines stext) existing)))
                                        w4)))))))"

section \<open>Running a plan\<close>

text \<open>
  \<open>Path.suffix\<close> of a file name, and \<open>is_renderable\<close>. \<open>str.lower\<close> follows the Unicode
  case tables: the parameter \<open>lower\<close> stands for it. An extension that is not a string has
  no \<open>lower\<close>.
\<close>

definition suffix_of :: "pystr \<Rightarrow> pystr" where
  "suffix_of name =
     (let k = length (takeWhile (\<lambda>c. c \<noteq> 46) (rev name))
      in if 46 \<in> set name \<and> 1 \<le> k \<and> k + 2 \<le> length name
         then drop (length name - 1 - k) name else [])"

fun lower_all :: "(pystr \<Rightarrow> pystr) \<Rightarrow> yval list \<Rightarrow> error + pystr list" where
  "lower_all lower [] = Inr []"
| "lower_all lower (e # es) =
     (case e of
        YStr s \<Rightarrow> (case lower_all lower es of Inl x \<Rightarrow> Inl x | Inr ls \<Rightarrow> Inr (lower s # ls))
      | _ \<Rightarrow> Inl AttributeError)"

definition is_renderable :: "(pystr \<Rightarrow> pystr) \<Rightarrow> path \<Rightarrow> yval list \<Rightarrow> error + bool" where
  "is_renderable lower p render_exts =
     (case lower_all lower render_exts of
        Inl e \<Rightarrow> Inl e
      | Inr ls \<Rightarrow> Inr (lower (suffix_of (if p = [] then [] else last p)) \<in> set ls))"

text \<open>
  \<open>apply_plan\<close>, item by item. \<open>copy_tree\<close> walks a source directory and calls
  \<open>copy_file\<close> on its files; the plan is run over any such procedure, the parameter
  \<open>copy_tree\<close>.
\<close>

type_synonym tree_copier =
  "path \<Rightarrow> path \<Rightarrow> bool \<Rightarrow> yval list \<Rightarrow> (pystr \<rightharpoonup> pystr) \<Rightarrow> world \<Rightarrow> outcome"

definition apply_item ::
  "(pystr \<Rightarrow> pystr) \<Rightarrow> tree_copier \<Rightarrow> CopyItem \<Rightarrow> bool \<Rightarrow> yval list \<Rightarrow> (pystr \<rightharpoonup> pystr) \<Rightarrow>
     world \<Rightarrow> outcome" where
  "apply_item lower copy_tree item force render_exts variables w =
     (if mode item = py ''merge_gitignore'' then
        (if \<not> exists w (src item) then
           (if optional item then (None, print (OptionalMissing (src item)) w)
            else (Some (FileNotFoundError (MissingSnippet (src item))), w))
         else merge_gitignore (src item) (dst item) force w)
      else if is_dir w (src item) then
        (if \<not> exists w (src item) then
           (if optional item then (None, print (OptionalMissing (src item)) w)
            else (Some (FileNotFoundError (MissingDir (src item))), w))
         else copy_tree (src item) (dst item) force render_exts variables w)
      else
        (if \<not> exists w (src item) then
           (if optional item then (None, print (OptionalMissing (src item)) w)
            else (Some (FileNotFoundError (MissingFile (src item))), w))
         else
           (case is_renderable lower (src item) render_exts of
              Inl e \<Rightarrow> (Some e, w)
            | Inr render \<Rightarrow> copy_file (src item) (dst item) force render variables w)))"

fun apply_plan ::
  "(pystr \<Rightarrow> pystr) \<Rightarrow> tree_copier \<Rightarrow> CopyItem list \<Rightarrow> bool \<Rightarrow> yval list \<Rightarrow>
     (pystr \<rightharpoonup> pystr) \<Rightarrow> world \<Rightarrow> outcome" where
  "apply_plan lower copy_tree [] force render_exts variables w = (None, w)"
| "apply_plan lower copy_tree (item # items) force render_exts variables w =
     (case apply_item lower copy_tree item force render_exts variables w of
        (Some e, w1) \<Rightarrow> (Some e, w1)
      | (None, w1) \<Rightarrow> apply_plan lower copy_tree items force render_exts variables w1)"

section \<open>A small world to run the procedures in\<close>

text \<open>
  A kit with a snippet (two equal lines, a line of one space, and a line that the
  repository has), a second snippet of one line, and a file that is not UTF-8; and a
  repository with a \<open>.gitignore\<close> that does not end in a line break.
\<close>

definition old_meta :: meta where
  "old_meta = \<lparr>perm = 420, mtime = 1\<rparr>"

definition exec_meta :: meta where
  "exec_meta = \<lparr>perm = 493, mtime = 2\<rparr>"

definition now_meta :: meta where
  "now_meta = \<lparr>perm = 420, mtime = 9\<rparr>"

definition demo_kit :: node where
  "demo_kit = Dir [py ''snippet'' \<mapsto>
                     File (py ''tmp'' @ [10] @ py '' '' @ [10] @ py ''tmp'' @ [10] @ py ''abc'' @ [10])
                       old_meta,
                   py ''extra'' \<mapsto> File (py ''new'') old_meta,
                   py ''logo.md'' \<mapsto> File [255, 216] exec_meta]"

definition demo_repo :: node where
  "demo_repo = Dir [py ''.gitignore'' \<mapsto> File (py ''abc'') old_meta]"

definition demo_world :: world where
  "demo_world = \<lparr>root = [py ''kit'' \<mapsto> demo_kit, py ''repo'' \<mapsto> demo_repo],
                  stdout = [], fresh = now_meta\<rparr>"

definition no_lower :: "pystr \<Rightarrow> pystr" where
  "no_lower s = s"

definition no_tree :: tree_copier where
  "no_tree s d force render_exts variables w = (None, w)"

definition missing_item :: "bool \<Rightarrow> CopyItem" where
  "missing_item opt =
     \<lparr>src = [py ''kit'', py ''gone''], dst = [py ''repo'', py ''gone''], mode = py ''copy'',
      optional = opt\<rparr>"

section \<open>UTF-8: decoding what was encoded\<close>

lemma decode_ascii:
  "b0 < 128 \<Longrightarrow> decode_utf8 (b0 # bs) = map_option ((#) b0) (decode_utf8 bs)"
  by simp

lemma decode_two:
  "194 \<le> b0 \<Longrightarrow> b0 < 224 \<Longrightarrow> is_cont b1 \<Longrightarrow>
   decode_utf8 (b0 # b1 # bs) = map_option ((#) ((b0 - 192) * 64 + (b1 - 128))) (decode_utf8 bs)"
  by simp

lemma decode_three:
  "224 \<le> b0 \<Longrightarrow> b0 < 240 \<Longrightarrow> is_cont b1 \<Longrightarrow> is_cont b2 \<Longrightarrow>
   (b0 = 224 \<Longrightarrow> 160 \<le> b1) \<Longrightarrow> (b0 = 237 \<Longrightarrow> b1 < 160) \<Longrightarrow>
   decode_utf8 (b0 # b1 # b2 # bs) =
     map_option ((#) ((b0 - 224) * 4096 + (b1 - 128) * 64 + (b2 - 128))) (decode_utf8 bs)"
  by auto

lemma decode_four:
  "240 \<le> b0 \<Longrightarrow> b0 < 245 \<Longrightarrow> is_cont b1 \<Longrightarrow> is_cont b2 \<Longrightarrow> is_cont b3 \<Longrightarrow>
   (b0 = 240 \<Longrightarrow> 144 \<le> b1) \<Longrightarrow> (b0 = 244 \<Longrightarrow> b1 < 144) \<Longrightarrow>
   decode_utf8 (b0 # b1 # b2 # b3 # bs) =
     map_option ((#) ((b0 - 240) * 262144 + (b1 - 128) * 4096 + (b2 - 128) * 64 + (b3 - 128)))
       (decode_utf8 bs)"
  by auto

lemma split64: "(c::nat) = 64 * (c div 64) + c mod 64"
  by simp

lemma decode_encode_char:
  assumes "encodable c"
  shows "decode_utf8 (encode_char c @ bs) = map_option ((#) c) (decode_utf8 bs)"
proof -
  define d where "d = c mod 64"
  define q where "q = c div 64"
  define b where "b = q mod 64"
  define p where "p = q div 64"
  define a where "a = p mod 64"
  define z where "z = p div 64"
  have c: "c = 64 * q + d" and dl: "d < 64"
    by (simp_all add: d_def q_def)
  have q: "q = 64 * p + b" and bl: "b < 64"
    by (simp_all add: b_def p_def)
  have p: "p = 64 * z + a" and al: "a < 64"
    by (simp_all add: a_def z_def)
  have u: "c < 1114112" and sur: "\<not> (55296 \<le> c \<and> c < 57344)"
    using assms by (simp_all add: encodable_def)
  have q4096: "c div 4096 = p"
    by (simp add: p_def q_def div_mult2_eq [symmetric])
  have q262144: "c div 262144 = z"
    by (simp add: z_def p_def q_def div_mult2_eq [symmetric])
  consider "c < 128" | "128 \<le> c" "c < 2048" | "2048 \<le> c" "c < 65536" | "65536 \<le> c"
    by linarith
  then show ?thesis
  proof cases
    case 1
    then show ?thesis by (simp add: encode_char_def)
  next
    case 2
    have e: "encode_char c = [192 + q, 128 + d]"
      using 2 by (simp add: encode_char_def q_def d_def)
    have "decode_utf8 ((192 + q) # (128 + d) # bs) =
        map_option ((#) ((192 + q - 192) * 64 + (128 + d - 128))) (decode_utf8 bs)"
      using 2 c dl by (intro decode_two) (auto simp: is_cont_def)
    moreover have "(192 + q - 192) * 64 + (128 + d - 128) = c"
      using c by simp
    ultimately show ?thesis using e by simp
  next
    case 3
    have e: "encode_char c = [224 + p, 128 + b, 128 + d]"
      using 3 by (simp add: encode_char_def q4096 b_def q_def d_def)
    have "decode_utf8 ((224 + p) # (128 + b) # (128 + d) # bs) =
        map_option ((#) ((224 + p - 224) * 4096 + (128 + b - 128) * 64 + (128 + d - 128)))
          (decode_utf8 bs)"
      using 3 c q dl bl sur by (intro decode_three) (auto simp: is_cont_def)
    moreover have "(224 + p - 224) * 4096 + (128 + b - 128) * 64 + (128 + d - 128) = c"
      using c q by simp
    ultimately show ?thesis using e by simp
  next
    case 4
    have e: "encode_char c = [240 + z, 128 + a, 128 + b, 128 + d]"
      using 4 by (simp add: encode_char_def q4096 q262144 a_def b_def q_def d_def)
    have "decode_utf8 ((240 + z) # (128 + a) # (128 + b) # (128 + d) # bs) =
        map_option ((#) ((240 + z - 240) * 262144 + (128 + a - 128) * 4096 +
                         (128 + b - 128) * 64 + (128 + d - 128)))
          (decode_utf8 bs)"
      using 4 c q p dl bl al u by (intro decode_four) (auto simp: is_cont_def)
    moreover have "(240 + z - 240) * 262144 + (128 + a - 128) * 4096 +
        (128 + b - 128) * 64 + (128 + d - 128) = c"
      using c q p by simp
    ultimately show ?thesis using e by simp
  qed
qed

lemma decode_encode:
  "encode_utf8 s = Some bs \<Longrightarrow> decode_utf8 (bs @ r) = map_option ((@) s) (decode_utf8 r)"
proof (induction s arbitrary: bs)
  case Nil
  then show ?case by (simp add: encode_utf8_def option.map_ident)
next
  case (Cons c s)
  then have c: "encodable c" and s: "encode_utf8 s = Some (concat (map encode_char s))"
    and bs: "bs = encode_char c @ concat (map encode_char s)"
    by (auto simp: encode_utf8_def split: if_splits)
  have "decode_utf8 (bs @ r) = map_option ((#) c) (decode_utf8 (concat (map encode_char s) @ r))"
    unfolding bs using decode_encode_char [OF c] by simp
  also have "\<dots> = map_option ((#) c) (map_option ((@) s) (decode_utf8 r))"
    using Cons.IH [OF s] by simp
  finally show ?case by (simp add: option.map_comp comp_def)
qed



lemma decode_Cons_cases:
  assumes "decode_utf8 (b0 # bs) = Some x"
  obtains (one) y where "b0 < 128" "decode_utf8 bs = Some y" "x = b0 # y"
  | (two) b1 r y where "194 \<le> b0" "b0 < 224" "bs = b1 # r" "is_cont b1"
      "decode_utf8 r = Some y" "x = ((b0 - 192) * 64 + (b1 - 128)) # y"
  | (three) b1 b2 r y where "224 \<le> b0" "b0 < 240" "bs = b1 # b2 # r" "is_cont b1" "is_cont b2"
      "b0 = 224 \<Longrightarrow> 160 \<le> b1" "b0 = 237 \<Longrightarrow> b1 < 160"
      "decode_utf8 r = Some y" "x = ((b0 - 224) * 4096 + (b1 - 128) * 64 + (b2 - 128)) # y"
  | (four) b1 b2 b3 r y where "240 \<le> b0" "b0 < 245" "bs = b1 # b2 # b3 # r"
      "is_cont b1" "is_cont b2" "is_cont b3"
      "b0 = 240 \<Longrightarrow> 144 \<le> b1" "b0 = 244 \<Longrightarrow> b1 < 144"
      "decode_utf8 r = Some y"
      "x = ((b0 - 240) * 262144 + (b1 - 128) * 4096 + (b2 - 128) * 64 + (b3 - 128)) # y"
proof -
  consider "b0 < 128" | "194 \<le> b0" "b0 < 224" | "224 \<le> b0" "b0 < 240"
    | "240 \<le> b0" "b0 < 245" | "128 \<le> b0" "b0 < 194" | "245 \<le> b0"
    by linarith
  then show ?thesis
  proof cases
    case 1
    with assms that(1) show ?thesis by auto
  next
    case 2
    with assms that(2) show ?thesis
      by (cases bs) (auto split: if_splits)
  next
    case 3
    then have n: "\<not> b0 < 128" "\<not> (194 \<le> b0 \<and> b0 < 224)" by auto
    from assms 3 obtain b1 b2 r where bs: "bs = b1 # b2 # r"
      by (cases bs; cases "tl bs") (auto simp: n)
    from assms 3 have c: "is_cont b1" "is_cont b2" "b0 = 224 \<Longrightarrow> 160 \<le> b1"
      "b0 = 237 \<Longrightarrow> b1 < 160"
      unfolding bs by (auto simp: n split: if_splits)
    from assms 3 c obtain y where "decode_utf8 r = Some y"
      "x = ((b0 - 224) * 4096 + (b1 - 128) * 64 + (b2 - 128)) # y"
      unfolding bs by (cases "b0 = 224"; cases "b0 = 237") (auto simp: n)
    with 3 bs c that(3) show ?thesis by blast
  next
    case 4
    then have n: "\<not> b0 < 128" "\<not> (194 \<le> b0 \<and> b0 < 224)" "\<not> (224 \<le> b0 \<and> b0 < 240)"
      by auto
    from assms 4 obtain b1 b2 b3 r where bs: "bs = b1 # b2 # b3 # r"
      by (cases bs; cases "tl bs"; cases "tl (tl bs)") (auto simp: n)
    from assms 4 have c: "is_cont b1" "is_cont b2" "is_cont b3" "b0 = 240 \<Longrightarrow> 144 \<le> b1"
      "b0 = 244 \<Longrightarrow> b1 < 144"
      unfolding bs by (auto simp: n split: if_splits)
    from assms 4 c obtain y where "decode_utf8 r = Some y"
      "x = ((b0 - 240) * 262144 + (b1 - 128) * 4096 + (b2 - 128) * 64 + (b3 - 128)) # y"
      unfolding bs by (cases "b0 = 240"; cases "b0 = 244") (auto simp: n)
    with 4 bs c that(4) show ?thesis by blast
  next
    case 5
    with assms show ?thesis by auto
  next
    case 6
    with assms show ?thesis by auto
  qed
qed


lemma decode_append:
  "decode_utf8 a = Some x \<Longrightarrow> decode_utf8 b = Some y \<Longrightarrow> decode_utf8 (a @ b) = Some (x @ y)"
proof (induction a arbitrary: x rule: length_induct)
  case (1 a)
  show ?case
  proof (cases a)
    case Nil
    with 1 show ?thesis by simp
  next
    case (Cons b0 bs)
    from "1.prems"(1) [unfolded Cons] show ?thesis
    proof (cases rule: decode_Cons_cases)
      case (one z)
      with 1 Cons have "decode_utf8 (bs @ b) = Some (z @ y)" by simp
      with one Cons show ?thesis by simp
    next
      case (two b1 r z)
      with 1 Cons have "decode_utf8 (r @ b) = Some (z @ y)" by simp
      with two Cons show ?thesis by (simp add: decode_two)
    next
      case (three b1 b2 r z)
      with 1 Cons have "decode_utf8 (r @ b) = Some (z @ y)" by simp
      moreover have "decode_utf8 (b0 # b1 # b2 # r @ b) =
          map_option ((#) ((b0 - 224) * 4096 + (b1 - 128) * 64 + (b2 - 128))) (decode_utf8 (r @ b))"
        using three by (intro decode_three)
      ultimately show ?thesis using three Cons by simp
    next
      case (four b1 b2 b3 r z)
      with 1 Cons have "decode_utf8 (r @ b) = Some (z @ y)" by simp
      moreover have "decode_utf8 (b0 # b1 # b2 # b3 # r @ b) =
          map_option ((#) ((b0 - 240) * 262144 + (b1 - 128) * 4096 + (b2 - 128) * 64 + (b3 - 128)))
            (decode_utf8 (r @ b))"
        using four by (intro decode_four)
      ultimately show ?thesis using four Cons by simp
    qed
  qed
qed


lemma decode_encodable:
  "decode_utf8 a = Some x \<Longrightarrow> list_all encodable x"
proof (induction a arbitrary: x rule: length_induct)
  case (1 a)
  show ?case
  proof (cases a)
    case Nil
    with 1 show ?thesis by simp
  next
    case (Cons b0 bs)
    from "1.prems"(1) [unfolded Cons] show ?thesis
    proof (cases rule: decode_Cons_cases)
      case (one z)
      with "1.IH" [rule_format, of bs z] Cons have "list_all encodable z" by simp
      moreover have "encodable b0" using one(1) by (simp add: encodable_def)
      ultimately show ?thesis using one by simp
    next
      case (two b1 r z)
      with "1.IH" [rule_format, of r z] Cons have "list_all encodable z" by simp
      define u where "u = b0 - 192"
      define v where "v = b1 - 128"
      have "u < 32" "v < 64"
        using two(1,2,4) unfolding is_cont_def u_def v_def by linarith+
      then have "encodable (u * 64 + v)"
        by (simp add: encodable_def)
      with \<open>list_all encodable z\<close> two show ?thesis by (simp add: u_def v_def)
    next
      case (three b1 b2 r z)
      with "1.IH" [rule_format, of r z] Cons have z: "list_all encodable z" by simp
      define u where "u = b0 - 224"
      define v where "v = b1 - 128"
      define w where "w = b2 - 128"
      have b: "u < 16" "v < 64" "w < 64"
        using three(1,2,4,5) unfolding is_cont_def u_def v_def w_def by linarith+
      have s: "u = 13 \<Longrightarrow> v < 32"
        using three(1,7) unfolding u_def v_def by linarith
      have "encodable (u * 4096 + v * 64 + w)"
        unfolding encodable_def using b s by (cases "u = 13") auto
      with z three show ?thesis by (simp add: u_def v_def w_def)
    next
      case (four b1 b2 b3 r z)
      with "1.IH" [rule_format, of r z] Cons have z: "list_all encodable z" by simp
      define u where "u = b0 - 240"
      define v where "v = b1 - 128"
      define w where "w = b2 - 128"
      define t where "t = b3 - 128"
      have b: "u < 5" "v < 64" "w < 64" "t < 64"
        using four(1,2,4,5,6) unfolding is_cont_def u_def v_def w_def t_def by linarith+
      have s: "u = 4 \<Longrightarrow> v < 16" "u = 0 \<Longrightarrow> 16 \<le> v"
        using four(1,7,8) unfolding u_def v_def by linarith+
      have "65536 \<le> u * 262144 + v * 4096 + w * 64 + t"
        using s(2) by (cases "u = 0") auto
      moreover have "u * 262144 + v * 4096 + w * 64 + t < 1114112"
        using b s(1) by (cases "u = 4") auto
      ultimately have "encodable (u * 262144 + v * 4096 + w * 64 + t)"
        unfolding encodable_def by simp
      with z four show ?thesis by (simp add: u_def v_def w_def t_def)
    qed
  qed
qed


section \<open>The copy plan: lemmas\<close>

lemma append_items_eq:
  "append_items repr locate k d items its = Inr out \<longleftrightarrow>
     (\<exists>cs. map (parse_copy_item repr locate k d) its = map Inr cs \<and> out = items @ cs)"
proof (induction its arbitrary: items out)
  case Nil
  then show ?case by auto
next
  case (Cons it its)
  show ?case
  proof (cases "parse_copy_item repr locate k d it")
    case (Inl e)
    then show ?thesis by (auto simp: map_eq_Cons_conv)
  next
    case (Inr c)
    then show ?thesis
      by (auto simp: Cons.IH map_eq_Cons_conv)
  qed
qed

lemma append_agents_eq:
  "append_agents repr locate k d agents_map items chosen = Inr out \<longleftrightarrow>
     (\<exists>lists. map (agent_entries agents_map) chosen = map Some lists \<and>
        (\<exists>cs. map (parse_copy_item repr locate k d) (concat lists) = map Inr cs \<and>
           out = items @ cs))"
proof (induction chosen arbitrary: items out)
  case Nil
  then show ?case by auto
next
  case (Cons a rest)
  show ?case
  proof (cases "agent_entries agents_map a")
    case None
    then have "append_agents repr locate k d agents_map items (a # rest) \<noteq> Inr out"
      by (auto simp: agent_entries_def copy_entries_def split: option.splits yval.splits sum.splits)
    with None show ?thesis by (auto simp: map_eq_Cons_conv)
  next
    case (Some l)
    then have step: "append_agents repr locate k d agents_map items (a # rest) =
        (case append_items repr locate k d items l of
           Inl e \<Rightarrow> Inl e
         | Inr items' \<Rightarrow> append_agents repr locate k d agents_map items' rest)"
      by (auto simp: agent_entries_def copy_entries_def split: option.splits yval.splits)
    show ?thesis
    proof
      assume "append_agents repr locate k d agents_map items (a # rest) = Inr out"
      with step obtain items' where
        i: "append_items repr locate k d items l = Inr items'" and
        r: "append_agents repr locate k d agents_map items' rest = Inr out"
        by (auto split: sum.splits)
      from i obtain cs where cs: "map (parse_copy_item repr locate k d) l = map Inr cs"
        "items' = items @ cs"
        by (auto simp: append_items_eq)
      from r obtain lists cs' where r':
        "map (agent_entries agents_map) rest = map Some lists"
        "map (parse_copy_item repr locate k d) (concat lists) = map Inr cs'"
        "out = items' @ cs'"
        by (auto simp: Cons.IH)
      have "map (agent_entries agents_map) (a # rest) = map Some (l # lists)"
        using Some r'(1) by simp
      moreover have "map (parse_copy_item repr locate k d) (concat (l # lists)) = map Inr (cs @ cs')"
        using cs(1) r'(2) by simp
      moreover have "out = items @ (cs @ cs')"
        using cs(2) r'(3) by simp
      ultimately show "\<exists>lists. map (agent_entries agents_map) (a # rest) = map Some lists \<and>
        (\<exists>cs. map (parse_copy_item repr locate k d) (concat lists) = map Inr cs \<and>
           out = items @ cs)"
        by blast
    next
      assume "\<exists>lists. map (agent_entries agents_map) (a # rest) = map Some lists \<and>
        (\<exists>cs. map (parse_copy_item repr locate k d) (concat lists) = map Inr cs \<and>
           out = items @ cs)"
      then obtain lists cs where h:
        "map (agent_entries agents_map) (a # rest) = map Some lists"
        "map (parse_copy_item repr locate k d) (concat lists) = map Inr cs"
        "out = items @ cs"
        by blast
      from h(1) Some obtain lists' where l: "lists = l # lists'"
        "map (agent_entries agents_map) rest = map Some lists'"
        by (auto simp: map_eq_Cons_conv)
      from h(2) l(1) obtain c1 c2 where c: "cs = c1 @ c2"
        "map (parse_copy_item repr locate k d) l = map Inr c1"
        "map (parse_copy_item repr locate k d) (concat lists') = map Inr c2"
        by (auto simp: map_eq_append_conv append_eq_map_conv)
      have "append_items repr locate k d items l = Inr (items @ c1)"
        using c(2) by (auto simp: append_items_eq)
      moreover have "append_agents repr locate k d agents_map (items @ c1) rest =
          Inr ((items @ c1) @ c2)"
        unfolding Cons.IH using l(2) c(3) by blast
      then have "append_agents repr locate k d agents_map (items @ c1) rest = Inr out"
        using c(1) h(3) by simp
      ultimately show "append_agents repr locate k d agents_map items (a # rest) = Inr out"
        using step by simp
    qed
  qed
qed

lemma valid_entry_parses:
  "valid_entry obj \<Longrightarrow> resolves locate k d obj \<Longrightarrow>
   \<exists>c. parse_copy_item repr locate k d obj = Inr c"
  by (auto simp: valid_entry_def resolves_def parse_copy_item_def Let_def
      split: yval.splits sum.splits)

lemma valid_entries_parse:
  "list_all valid_entry l \<Longrightarrow> list_all (resolves locate k d) l \<Longrightarrow>
   \<exists>cs. map (parse_copy_item repr locate k d) l = map Inr cs"
proof (induction l)
  case Nil
  then show ?case by simp
next
  case (Cons a l)
  then obtain c cs where "parse_copy_item repr locate k d a = Inr c"
    "map (parse_copy_item repr locate k d) l = map Inr cs"
    using valid_entry_parses [of a locate k d repr] by auto
  then have "map (parse_copy_item repr locate k d) (a # l) = map Inr (c # cs)" by simp
  then show ?case by blast
qed

lemma build_copy_plan_unfold:
  assumes "is_list (dict_get manifest (py ''render_extensions'') (YList []))"
    and "dict_get manifest (py ''agents'') (YDict []) = YDict agents_map"
    and "sel = [py ''all''] \<or> filter (\<lambda>a. \<not> dict_has agents_map a) sel = []"
    and "copy_entries (dict_get manifest (py ''common'') (YDict [])) = Some common_copy"
  shows "build_copy_plan repr locate k d manifest sel =
     (case append_items repr locate k d [] common_copy of
        Inl e \<Rightarrow> Inl e
      | Inr items \<Rightarrow>
          (case append_agents repr locate k d agents_map items (chosen_agents agents_map sel) of
             Inl e \<Rightarrow> Inl e
           | Inr items' \<Rightarrow> Inr (items', sort (dict_keys agents_map))))"
proof -
  from assms(4) obtain common where
    c: "dict_get manifest (py ''common'') (YDict []) = YDict common"
       "dict_get common (py ''copy'') (YList []) = YList common_copy"
    by (auto simp: copy_entries_def split: yval.splits)
  show ?thesis
  proof (cases "sel = [py ''all'']")
    case True
    then have ch: "chosen_agents agents_map sel = sort (dict_keys agents_map)"
      by (simp add: chosen_agents_def)
    show ?thesis
      unfolding ch using True assms(1,2) c by (simp add: build_copy_plan_def Let_def)
  next
    case False
    with assms(3) have "filter (\<lambda>a. \<not> dict_has agents_map a) sel = []" by simp
    moreover from False have ch: "chosen_agents agents_map sel = sel"
      by (simp add: chosen_agents_def)
    ultimately show ?thesis
      unfolding ch using False assms(1,2) c by (simp add: build_copy_plan_def Let_def)
  qed
qed

lemma build_copy_plan_Inr_conds:
  assumes "build_copy_plan repr locate k d manifest sel = Inr r"
  shows "is_list (dict_get manifest (py ''render_extensions'') (YList [])) \<and>
     (\<exists>agents_map. dict_get manifest (py ''agents'') (YDict []) = YDict agents_map \<and>
        (sel = [py ''all''] \<or> filter (\<lambda>a. \<not> dict_has agents_map a) sel = [])) \<and>
     (\<exists>common_copy. copy_entries (dict_get manifest (py ''common'') (YDict [])) = Some common_copy)"
proof -
  have 1: "is_list (dict_get manifest (py ''render_extensions'') (YList []))"
    using assms by (simp add: build_copy_plan_def split: if_splits)
  then obtain agents_map where
    2: "dict_get manifest (py ''agents'') (YDict []) = YDict agents_map"
    using assms by (cases "dict_get manifest (py ''agents'') (YDict [])")
      (simp_all add: build_copy_plan_def)
  have 3: "sel = [py ''all''] \<or> filter (\<lambda>a. \<not> dict_has agents_map a) sel = []"
    using assms 1 2 by (simp add: build_copy_plan_def Let_def split: if_splits)
  obtain common where
    4: "dict_get manifest (py ''common'') (YDict []) = YDict common"
    using assms 1 2 3
    by (cases "dict_get manifest (py ''common'') (YDict [])")
      (auto simp: build_copy_plan_def Let_def split: if_splits)
  obtain common_copy where
    5: "dict_get common (py ''copy'') (YList []) = YList common_copy"
    using assms 1 2 3 4
    by (cases "dict_get common (py ''copy'') (YList [])")
      (auto simp: build_copy_plan_def Let_def split: if_splits)
  have "copy_entries (dict_get manifest (py ''common'') (YDict [])) = Some common_copy"
    using 4 5 by (simp add: copy_entries_def)
  with 1 2 3 show ?thesis by blast
qed

lemma build_copy_plan_Inr_iff:
  "build_copy_plan repr locate k d manifest sel = Inr (items, avail) \<longleftrightarrow>
     (\<exists>agents_map common_copy lists.
        is_list (dict_get manifest (py ''render_extensions'') (YList [])) \<and>
        dict_get manifest (py ''agents'') (YDict []) = YDict agents_map \<and>
        avail = sort (dict_keys agents_map) \<and>
        (sel = [py ''all''] \<or> filter (\<lambda>a. \<not> dict_has agents_map a) sel = []) \<and>
        copy_entries (dict_get manifest (py ''common'') (YDict [])) = Some common_copy \<and>
        map (agent_entries agents_map) (chosen_agents agents_map sel) = map Some lists \<and>
        map (parse_copy_item repr locate k d) (common_copy @ concat lists) = map Inr items)"
  (is "?L \<longleftrightarrow> ?R")
proof
  assume L: ?L
  from build_copy_plan_Inr_conds [OF L] obtain agents_map common_copy where
    c: "is_list (dict_get manifest (py ''render_extensions'') (YList []))"
       "dict_get manifest (py ''agents'') (YDict []) = YDict agents_map"
       "sel = [py ''all''] \<or> filter (\<lambda>a. \<not> dict_has agents_map a) sel = []"
       "copy_entries (dict_get manifest (py ''common'') (YDict [])) = Some common_copy"
    by blast
  from L build_copy_plan_unfold [OF c] obtain items0 where
    i: "append_items repr locate k d [] common_copy = Inr items0"
       "append_agents repr locate k d agents_map items0 (chosen_agents agents_map sel) = Inr items"
       "avail = sort (dict_keys agents_map)"
    by (auto split: sum.splits)
  from i(1) have p0: "map (parse_copy_item repr locate k d) common_copy = map Inr items0"
    by (simp add: append_items_eq)
  from i(2) obtain lists cs where
    l: "map (agent_entries agents_map) (chosen_agents agents_map sel) = map Some lists"
       "map (parse_copy_item repr locate k d) (concat lists) = map Inr cs"
       "items = items0 @ cs"
    unfolding append_agents_eq by blast
  have "map (parse_copy_item repr locate k d) (common_copy @ concat lists) = map Inr items"
    using p0 l(2,3) by simp
  with c i(3) l(1) show ?R by blast
next
  assume ?R
  then obtain agents_map common_copy lists where
    c: "is_list (dict_get manifest (py ''render_extensions'') (YList []))"
       "dict_get manifest (py ''agents'') (YDict []) = YDict agents_map"
       "sel = [py ''all''] \<or> filter (\<lambda>a. \<not> dict_has agents_map a) sel = []"
       "copy_entries (dict_get manifest (py ''common'') (YDict [])) = Some common_copy"
    and r: "avail = sort (dict_keys agents_map)"
       "map (agent_entries agents_map) (chosen_agents agents_map sel) = map Some lists"
       "map (parse_copy_item repr locate k d) (common_copy @ concat lists) = map Inr items"
    by blast
  from r(3) obtain items0 cs where
    s: "items = items0 @ cs"
       "map (parse_copy_item repr locate k d) common_copy = map Inr items0"
       "map (parse_copy_item repr locate k d) (concat lists) = map Inr cs"
    by (auto simp: map_eq_append_conv append_eq_map_conv)
  have "append_items repr locate k d [] common_copy = Inr items0"
    using s(2) by (simp add: append_items_eq)
  moreover have "append_agents repr locate k d agents_map items0 (chosen_agents agents_map sel) =
      Inr items"
    unfolding append_agents_eq using r(2) s(1,3) by blast
  ultimately show ?L
    using build_copy_plan_unfold [OF c] r(1) by simp
qed


lemma demo_keys: "sort (dict_keys [(py ''trae'', a), (py ''antigravity'', b)]) = [py ''antigravity'', py ''trae'']"
  by (simp add: dict_keys_def py_def)

text \<open>
  Claim C1. \<open>build_copy_plan\<close> returns a plan and the available names exactly when the
  manifest passes its checks, the selection is the sentinel \<open>["all"]\<close> or names known
  agents only, and every entry parses; the plan is then the parsed entries of
  \<open>common.copy\<close> in declared order followed by, for each chosen agent in selection order,
  the parsed entries of that agent's \<open>copy\<close> list in declared order. The chosen agents are
  all agents in sorted order for the sentinel, and the selection as given otherwise
  (\<open>chosen_agents\<close>); the names returned are the sorted keys of \<open>agents\<close>.
\<close>

theorem build_copy_plan_plan:
  "build_copy_plan repr locate k d manifest sel = Inr (items, avail) \<longleftrightarrow>
     (\<exists>agents_map common_copy lists.
        is_list (dict_get manifest (py ''render_extensions'') (YList [])) \<and>
        dict_get manifest (py ''agents'') (YDict []) = YDict agents_map \<and>
        avail = sort (dict_keys agents_map) \<and>
        (sel = [py ''all''] \<or> filter (\<lambda>a. \<not> dict_has agents_map a) sel = []) \<and>
        copy_entries (dict_get manifest (py ''common'') (YDict [])) = Some common_copy \<and>
        map (agent_entries agents_map) (chosen_agents agents_map sel) = map Some lists \<and>
        map (parse_copy_item repr locate k d) (common_copy @ concat lists) = map Inr items)"
  by (rule build_copy_plan_Inr_iff)

text \<open>
  On the demonstration manifest: the sentinel takes \<open>antigravity\<close> before \<open>trae\<close>, the
  explicit selection \<open>trae, antigravity\<close> keeps the caller's order.
\<close>

lemma demo_parse:
  "parse_copy_item no_repr demo_locate [py ''kit''] [py ''repo''] (entry ''AGENT.md'' ''AGENT.md'') =
     Inr (demo_item [''AGENT.md''] [''AGENT.md''])"
  "parse_copy_item no_repr demo_locate [py ''kit''] [py ''repo''] (entry ''ag/a.md'' ''a.md'') =
     Inr (demo_item [''ag'', ''a.md''] [''a.md''])"
  "parse_copy_item no_repr demo_locate [py ''kit''] [py ''repo''] (entry ''ag/b.md'' ''b.md'') =
     Inr (demo_item [''ag'', ''b.md''] [''b.md''])"
  "parse_copy_item no_repr demo_locate [py ''kit''] [py ''repo'']
       (entry ''trae/rules.md'' ''.trae/rules.md'') =
     Inr (demo_item [''trae'', ''rules.md''] [''.trae'', ''rules.md''])"
  by (simp_all add: parse_copy_item_def entry_def demo_item_def demo_locate_def dict_get_def
      py_str_def py_def)

theorem build_copy_plan_plan_witness:
  "build_copy_plan no_repr demo_locate [py ''kit''] [py ''repo''] demo_manifest [py ''all''] =
     Inr ([demo_item [''AGENT.md''] [''AGENT.md''], demo_item [''ag'', ''a.md''] [''a.md''],
           demo_item [''ag'', ''b.md''] [''b.md''],
           demo_item [''trae'', ''rules.md''] [''.trae'', ''rules.md'']],
          [py ''antigravity'', py ''trae'']) \<and>
   build_copy_plan no_repr demo_locate [py ''kit''] [py ''repo''] demo_manifest
       [py ''trae'', py ''antigravity''] =
     Inr ([demo_item [''AGENT.md''] [''AGENT.md''],
           demo_item [''trae'', ''rules.md''] [''.trae'', ''rules.md''],
           demo_item [''ag'', ''a.md''] [''a.md''], demo_item [''ag'', ''b.md''] [''b.md'']],
          [py ''antigravity'', py ''trae''])"
proof -
  let ?am = "[(py ''trae'', YDict [(py ''copy'', YList [entry ''trae/rules.md'' ''.trae/rules.md''])]),
          (py ''antigravity'', YDict [(py ''copy'', YList [entry ''ag/a.md'' ''a.md'',
                                                            entry ''ag/b.md'' ''b.md''])])]"
  have a: "dict_get demo_manifest (py ''agents'') (YDict []) = YDict ?am"
    by (simp add: demo_manifest_def dict_get_def py_def)
  have r: "is_list (dict_get demo_manifest (py ''render_extensions'') (YList []))"
    by (simp add: demo_manifest_def dict_get_def py_def)
  have c: "copy_entries (dict_get demo_manifest (py ''common'') (YDict [])) =
      Some [entry ''AGENT.md'' ''AGENT.md'']"
    by (simp add: demo_manifest_def dict_get_def copy_entries_def py_def)
  have k: "sort (dict_keys ?am) = [py ''antigravity'', py ''trae'']"
    by (rule demo_keys)
  have e1: "agent_entries ?am (py ''trae'') = Some [entry ''trae/rules.md'' ''.trae/rules.md'']"
    by (simp add: agent_entries_def copy_entries_def dict_get_def py_def)
  have e2: "agent_entries ?am (py ''antigravity'') =
      Some [entry ''ag/a.md'' ''a.md'', entry ''ag/b.md'' ''b.md'']"
    by (simp add: agent_entries_def copy_entries_def dict_get_def py_def)
  have h: "dict_has ?am (py ''trae'')" "dict_has ?am (py ''antigravity'')"
    by (simp_all add: dict_has_def py_def)
  have ch1: "chosen_agents ?am [py ''all''] = [py ''antigravity'', py ''trae'']"
    by (simp add: chosen_agents_def k)
  have ch2: "chosen_agents ?am [py ''trae'', py ''antigravity''] = [py ''trae'', py ''antigravity'']"
    by (simp add: chosen_agents_def py_def)
  have 1: "build_copy_plan no_repr demo_locate [py ''kit''] [py ''repo''] demo_manifest [py ''all''] =
     Inr ([demo_item [''AGENT.md''] [''AGENT.md''], demo_item [''ag'', ''a.md''] [''a.md''],
           demo_item [''ag'', ''b.md''] [''b.md''],
           demo_item [''trae'', ''rules.md''] [''.trae'', ''rules.md'']],
          [py ''antigravity'', py ''trae''])"
    unfolding build_copy_plan_plan
    apply (rule exI [of _ ?am])
    apply (rule exI [of _ "[entry ''AGENT.md'' ''AGENT.md'']"])
    apply (rule exI [of _ "[[entry ''ag/a.md'' ''a.md'', entry ''ag/b.md'' ''b.md''],
                            [entry ''trae/rules.md'' ''.trae/rules.md'']]"])
    apply (simp only: a r c k ch1 e1 e2 demo_parse list.map concat.simps append.simps simp_thms)
    done
  have 2: "build_copy_plan no_repr demo_locate [py ''kit''] [py ''repo''] demo_manifest
       [py ''trae'', py ''antigravity''] =
     Inr ([demo_item [''AGENT.md''] [''AGENT.md''],
           demo_item [''trae'', ''rules.md''] [''.trae'', ''rules.md''],
           demo_item [''ag'', ''a.md''] [''a.md''], demo_item [''ag'', ''b.md''] [''b.md'']],
          [py ''antigravity'', py ''trae''])"
    unfolding build_copy_plan_plan
    apply (rule exI [of _ ?am])
    apply (rule exI [of _ "[entry ''AGENT.md'' ''AGENT.md'']"])
    apply (rule exI [of _ "[[entry ''trae/rules.md'' ''.trae/rules.md''],
                            [entry ''ag/a.md'' ''a.md'', entry ''ag/b.md'' ''b.md'']]"])
    apply (simp only: a r c k ch2 e1 e2 demo_parse h list.map concat.simps append.simps simp_thms
        filter.simps if_True if_False)
    done
  from 1 2 show ?thesis by (rule conjI)
qed

text \<open>
  Claim C9. A well-formed manifest has the shape the builder checks (\<open>well_formed\<close>),
  and the strings of its common entries are paths: \<open>resolve\<close> accepts them (no NUL
  character, no lone surrogate). On such a manifest the empty selection succeeds: the
  plan is the parsed entries of \<open>common.copy\<close> and nothing else, returned with the sorted
  agent names.
\<close>

theorem build_copy_plan_empty_selection:
  assumes "well_formed manifest"
    and "copy_entries (dict_get manifest (py ''common'') (YDict [])) = Some common_copy"
    and "list_all (resolves locate k d) common_copy"
  shows "\<exists>agents_map items.
     dict_get manifest (py ''agents'') (YDict []) = YDict agents_map \<and>
     map (parse_copy_item repr locate k d) common_copy = map Inr items \<and>
     build_copy_plan repr locate k d manifest [] = Inr (items, sort (dict_keys agents_map))"
proof -
  from assms(1) obtain agents_map where
    a: "dict_get manifest (py ''agents'') (YDict []) = YDict agents_map"
    by (auto simp: well_formed_def split: yval.splits)
  from assms(1,2) have v: "list_all valid_entry common_copy"
    by (auto simp: well_formed_def valid_block_def split: option.splits)
  from valid_entries_parse [OF v assms(3)] obtain items where
    i: "map (parse_copy_item repr locate k d) common_copy = map Inr items"
    by blast
  from assms(1) have r: "is_list (dict_get manifest (py ''render_extensions'') (YList []))"
    by (simp add: well_formed_def)
  have "build_copy_plan repr locate k d manifest [] = Inr (items, sort (dict_keys agents_map))"
    unfolding build_copy_plan_Inr_iff
    apply (rule exI [of _ agents_map])
    apply (rule exI [of _ common_copy])
    apply (rule exI [of _ "[]"])
    using a assms(2) i r apply (simp add: chosen_agents_def py_def)
    done
  with a i show ?thesis by blast
qed

text \<open>The demonstration manifest, with nothing selected.\<close>

theorem build_copy_plan_empty_selection_witness:
  "well_formed demo_manifest \<and>
   list_all (resolves demo_locate [py ''kit''] [py ''repo'']) [entry ''AGENT.md'' ''AGENT.md''] \<and>
   build_copy_plan no_repr demo_locate [py ''kit''] [py ''repo''] demo_manifest [] =
     Inr ([demo_item [''AGENT.md''] [''AGENT.md'']], [py ''antigravity'', py ''trae''])"
proof -
  have w: "well_formed demo_manifest"
    by (simp add: well_formed_def demo_manifest_def dict_get_def dict_keys_def valid_block_def
        copy_entries_def valid_entry_def entry_def py_def)
  have c: "copy_entries (dict_get demo_manifest (py ''common'') (YDict [])) =
      Some [entry ''AGENT.md'' ''AGENT.md'']"
    by (simp add: demo_manifest_def dict_get_def copy_entries_def py_def)
  have l: "list_all (resolves demo_locate [py ''kit''] [py ''repo'']) [entry ''AGENT.md'' ''AGENT.md'']"
    by (simp add: resolves_def entry_def demo_locate_def dict_get_def py_def)
  from build_copy_plan_empty_selection [OF w c l, of no_repr]
  obtain agents_map items where
    h: "dict_get demo_manifest (py ''agents'') (YDict []) = YDict agents_map"
       "map (parse_copy_item no_repr demo_locate [py ''kit''] [py ''repo''])
          [entry ''AGENT.md'' ''AGENT.md''] = map Inr items"
       "build_copy_plan no_repr demo_locate [py ''kit''] [py ''repo''] demo_manifest [] =
          Inr (items, sort (dict_keys agents_map))"
    by blast
  from h(1) have k: "sort (dict_keys agents_map) = [py ''antigravity'', py ''trae'']"
    by (auto simp: demo_manifest_def dict_get_def py_def dict_keys_def)
  from h(2) have "items = [demo_item [''AGENT.md''] [''AGENT.md'']]"
    unfolding list.map demo_parse by auto
  with h(3) k w l show ?thesis by simp
qed

text \<open>
  A string with a NUL character is no path: \<open>resolve\<close> raises on it, and the builder
  with it.
\<close>

lemma build_copy_plan_nul:
  "build_copy_plan no_repr demo_locate [py ''kit''] [py ''repo'']
     [(py ''common'', YDict [(py ''copy'',
       YList [YDict [(py ''src'', YStr [97, 0, 98]), (py ''dst'', YStr (py ''b''))]])])] [] =
     Inl (ValueError EmbeddedNullByte)"
  by (simp add: copy_entries_def dict_keys_def
      build_copy_plan_def parse_copy_item_def demo_locate_def dict_get_def dict_has_def py_def)

text \<open>
  Claim C5. On a manifest that has passed the builder's checks of \<open>render_extensions\<close>
  and of \<open>agents\<close>, which come first, an explicit selection with a name that is not a key of
  \<open>agents\<close> fails with the error that carries all the unknown names and the sorted
  available names; without an unknown name the builder never fails with that error.
\<close>

theorem build_copy_plan_unknown_agents:
  assumes "is_list (dict_get manifest (py ''render_extensions'') (YList []))"
    and "dict_get manifest (py ''agents'') (YDict []) = YDict agents_map"
    and "sel \<noteq> [py ''all'']"
  shows "(filter (\<lambda>a. \<not> dict_has agents_map a) sel \<noteq> [] \<longrightarrow>
            build_copy_plan repr locate k d manifest sel =
              Inl (ValueError (UnknownAgents (filter (\<lambda>a. \<not> dict_has agents_map a) sel)
                                             (sort (dict_keys agents_map))))) \<and>
         (filter (\<lambda>a. \<not> dict_has agents_map a) sel = [] \<longrightarrow>
            (\<forall>u av. build_copy_plan repr locate k d manifest sel \<noteq>
               Inl (ValueError (UnknownAgents u av))))"
proof (intro conjI impI allI)
  assume "filter (\<lambda>a. \<not> dict_has agents_map a) sel \<noteq> []"
  then show "build_copy_plan repr locate k d manifest sel =
      Inl (ValueError (UnknownAgents (filter (\<lambda>a. \<not> dict_has agents_map a) sel)
                                     (sort (dict_keys agents_map))))"
    using assms by (simp add: build_copy_plan_def Let_def)
next
  fix u av
  assume n: "filter (\<lambda>a. \<not> dict_has agents_map a) sel = []"
  have re: "resolve_error e \<noteq> ValueError (UnknownAgents u av)" for e
    by (cases e) simp_all
  have pc: "parse_copy_item repr locate k d obj \<noteq> Inl (ValueError (UnknownAgents u av))" for obj
    using re by (auto simp: parse_copy_item_def Let_def split: sum.splits yval.splits)
  have ai: "append_items repr locate k d items its \<noteq> Inl (ValueError (UnknownAgents u av))"
    for items its
    using pc by (induction its arbitrary: items) (auto split: sum.splits)
  have ag: "append_agents repr locate k d agents_map items chosen \<noteq>
      Inl (ValueError (UnknownAgents u av))" for items chosen
    by (induction chosen arbitrary: items)
      (auto simp: ai split: sum.splits yval.splits option.splits)
  show "build_copy_plan repr locate k d manifest sel \<noteq> Inl (ValueError (UnknownAgents u av))"
    using assms n ai ag
    by (auto simp: build_copy_plan_def Let_def split: sum.splits yval.splits)
qed

text \<open>An unknown name on the demonstration manifest, and a selection of known names.\<close>

theorem build_copy_plan_unknown_agents_witness:
  "build_copy_plan no_repr demo_locate [py ''kit''] [py ''repo''] demo_manifest
       [py ''ghost'', py ''trae'', py ''zed''] =
     Inl (ValueError (UnknownAgents [py ''ghost'', py ''zed''] [py ''antigravity'', py ''trae''])) \<and>
   build_copy_plan no_repr demo_locate [py ''kit''] [py ''repo''] demo_manifest [py ''trae''] \<noteq>
     Inl (ValueError (UnknownAgents [py ''ghost'', py ''zed''] [py ''antigravity'', py ''trae'']))"
proof -
  let ?am = "[(py ''trae'', YDict [(py ''copy'', YList [entry ''trae/rules.md'' ''.trae/rules.md''])]),
          (py ''antigravity'', YDict [(py ''copy'', YList [entry ''ag/a.md'' ''a.md'',
                                                            entry ''ag/b.md'' ''b.md''])])]"
  have a: "dict_get demo_manifest (py ''agents'') (YDict []) = YDict ?am"
    by (simp add: demo_manifest_def dict_get_def py_def)
  have r: "is_list (dict_get demo_manifest (py ''render_extensions'') (YList []))"
    by (simp add: demo_manifest_def dict_get_def py_def)
  have s1: "[py ''ghost'', py ''trae'', py ''zed''] \<noteq> [py ''all'']"
    and s2: "[py ''trae''] \<noteq> [py ''all'']"
    by (simp_all add: py_def)
  have f1: "filter (\<lambda>a. \<not> dict_has ?am a) [py ''ghost'', py ''trae'', py ''zed''] =
      [py ''ghost'', py ''zed'']"
    and f2: "filter (\<lambda>a. \<not> dict_has ?am a) [py ''trae''] = []"
    by (simp_all add: dict_has_def py_def)
  have k: "sort (dict_keys ?am) = [py ''antigravity'', py ''trae'']"
    by (rule demo_keys)
  from build_copy_plan_unknown_agents [OF r a s1, of no_repr demo_locate "[py ''kit'']" "[py ''repo'']"]
    build_copy_plan_unknown_agents [OF r a s2, of no_repr demo_locate "[py ''kit'']" "[py ''repo'']"]
  show ?thesis
    unfolding f1 f2 k by simp
qed

section \<open>Lines: lemmas\<close>

lemma drop_lf_append: "xs \<noteq> [] \<Longrightarrow> drop_lf (xs @ ys) = drop_lf xs @ ys"
  by (cases xs) auto

lemma is_linebreak_10 [simp]: "is_linebreak 10"
  by (simp add: is_linebreak_def)

lemma is_linebreak_13 [simp]: "is_linebreak 13"
  by (simp add: is_linebreak_def)

lemma split_from_plain:
  "list_all (\<lambda>c. \<not> is_linebreak c) l \<Longrightarrow> split_from cur (l @ s) = split_from (cur @ l) s"
  by (induction l arbitrary: cur) auto

lemma split_from_line:
  "list_all (\<lambda>c. \<not> is_linebreak c) l \<Longrightarrow> split_from cur (l @ 10 # s) = (cur @ l) # split_from [] s"
  by (simp add: split_from_plain)

lemma split_from_lines:
  "list_all (list_all (\<lambda>c. \<not> is_linebreak c)) ls \<Longrightarrow>
   split_from [] (concat (map (\<lambda>l. l @ [10]) ls) @ s) = ls @ split_from [] s"
  by (induction ls) (auto simp: split_from_line)

lemma join_nl_terminated:
  "ls \<noteq> [] \<Longrightarrow> join_nl ls @ [10] = concat (map (\<lambda>l. l @ [10]) ls)"
  by (induction ls rule: join_nl.induct) auto

lemma split_from_no_breaks:
  "list_all (\<lambda>c. \<not> is_linebreak c) cur \<Longrightarrow>
   list_all (list_all (\<lambda>c. \<not> is_linebreak c)) (split_from cur s)"
  by (induction cur s rule: split_from.induct) auto

lemma split_from_universal:
  "split_from cur (universal_newlines s) = split_from cur s"
proof (induction s arbitrary: cur rule: length_induct)
  case (1 s)
  show ?case
  proof (cases s)
    case Nil
    then show ?thesis by simp
  next
    case (Cons c cs)
    have l: "length (drop_lf cs) < length s" "length cs < length s"
      using Cons length_drop_lf [of cs] by auto
    show ?thesis
    proof (cases "c = 13")
      case True
      then show ?thesis
        using Cons "1.IH" [rule_format, OF l(1), of "[]"] by simp
    next
      case False
      then show ?thesis
        using Cons "1.IH" [rule_format, OF l(2)] by simp
    qed
  qed
qed

lemma split_from_nonempty: "s \<noteq> [] \<Longrightarrow> split_from cur s \<noteq> []"
proof (induction cur s rule: split_from.induct)
  case (1 cur)
  then show ?case by simp
next
  case (2 cur c cs)
  show ?case
  proof (cases "is_linebreak c")
    case True
    then show ?thesis by simp
  next
    case False
    show ?thesis
    proof (cases cs)
      case Nil
      with False show ?thesis by simp
    next
      case (Cons d ds)
      with False 2 show ?thesis by simp
    qed
  qed
qed

text \<open>After a line break that is not fused with what follows, the lines of the rest follow.\<close>

lemma split_from_after_break:
  "is_linebreak c \<Longrightarrow> (c = 13 \<Longrightarrow> b = [] \<or> hd b \<noteq> 10) \<Longrightarrow>
   split_from cur (a @ c # b) = split_from cur (a @ [c]) @ split_from [] b"
proof (induction a arbitrary: cur rule: length_induct)
  case (1 a)
  have dl: "c = 13 \<Longrightarrow> drop_lf b = b"
    using "1.prems"(2) by (cases b) auto
  show ?case
  proof (cases a)
    case Nil
    then show ?thesis using "1.prems"(1) dl by simp
  next
    case (Cons x xs)
    note IH = "1.IH" [rule_format, OF _ "1.prems"]
    show ?thesis
    proof (cases "is_linebreak x")
      case False
      then show ?thesis using Cons IH [of xs] by simp
    next
      case True
      show ?thesis
      proof (cases "x = 13")
        case False
        then show ?thesis using True Cons IH [of xs "[]"] by simp
      next
        case x13: True
        show ?thesis
        proof (cases xs)
          case Nil
          then show ?thesis using x13 Cons "1.prems"(1) dl by simp
        next
          case (Cons y ys)
          have "length (drop_lf xs) < length a"
            using \<open>a = x # xs\<close> length_drop_lf [of xs] by simp
          from IH [OF this, of "[]"] show ?thesis
            using x13 \<open>a = x # xs\<close> Cons drop_lf_append [of xs] by simp
        qed
      qed
    qed
  qed
qed

lemma split_from_then_lf:
  "a \<noteq> [] \<or> cur \<noteq> [] \<Longrightarrow>
   split_from cur (a @ 10 # b) =
     split_from cur a @ (if a = [] then [] else tail_blank a) @ split_from [] b"
proof (induction a arbitrary: cur rule: length_induct)
  case (1 a)
  show ?case
  proof (cases a)
    case Nil
    then show ?thesis using "1.prems" by simp
  next
    case (Cons x xs)
    note IH = "1.IH" [rule_format]
    show ?thesis
    proof (cases "is_linebreak x")
      case False
      have "split_from (cur @ [x]) (xs @ 10 # b) =
          split_from (cur @ [x]) xs @ (if xs = [] then [] else tail_blank xs) @ split_from [] b"
        using IH [of xs "cur @ [x]"] Cons by simp
      moreover have "(if xs = [] then [] else tail_blank xs) = tail_blank a"
        using Cons False by (auto simp: tail_blank_def)
      ultimately show ?thesis using Cons False by simp
    next
      case True
      show ?thesis
      proof (cases xs)
        case Nil
        then show ?thesis using True \<open>a = x # xs\<close> by (auto simp: tail_blank_def)
      next
        case xs: (Cons y ys)
        show ?thesis
        proof (cases "x = 13 \<and> y = 10")
          case False
          then have r: "(if x = 13 then drop_lf (xs @ 10 # b) else xs @ 10 # b) = xs @ 10 # b"
            "(if x = 13 then drop_lf xs else xs) = xs"
            using xs by auto
          have "split_from [] (xs @ 10 # b) = split_from [] xs @ tail_blank xs @ split_from [] b"
            using IH [of xs "[]"] \<open>a = x # xs\<close> xs by simp
          moreover have "tail_blank xs = tail_blank a"
            using \<open>a = x # xs\<close> xs by (simp add: tail_blank_def)
          ultimately show ?thesis using True \<open>a = x # xs\<close> r by simp
        next
          case crlf: True
          show ?thesis
          proof (cases ys)
            case Nil
            then show ?thesis
              using crlf \<open>a = x # xs\<close> xs by (simp add: tail_blank_def)
          next
            case (Cons z zs)
            have "split_from [] (ys @ 10 # b) = split_from [] ys @ tail_blank ys @ split_from [] b"
              using IH [of ys "[]"] \<open>a = x # xs\<close> xs Cons by simp
            moreover have "tail_blank ys = tail_blank a"
              using \<open>a = x # xs\<close> xs Cons by (simp add: tail_blank_def)
            ultimately show ?thesis using crlf \<open>a = x # xs\<close> xs by simp
          qed
        qed
      qed
    qed
  qed
qed

text \<open>A last line that is empty was ended by a line break.\<close>

lemma split_from_last_open:
  "a \<noteq> [] \<Longrightarrow> \<not> is_linebreak (last a) \<Longrightarrow> last (split_from cur a) \<noteq> []"
proof (induction a arbitrary: cur rule: length_induct)
  case (1 a)
  then obtain x xs where a: "a = x # xs" by (cases a) auto
  note IH = "1.IH" [rule_format]
  show ?case
  proof (cases xs)
    case Nil
    then show ?thesis using a "1.prems" by simp
  next
    case (Cons y ys)
    then have lx: "last xs = last a" using a by simp
    show ?thesis
    proof (cases "is_linebreak x")
      case False
      then show ?thesis
        using a Cons lx "1.prems" IH [of xs "cur @ [x]"] by simp
    next
      case True
      show ?thesis
      proof (cases "x = 13 \<and> y = 10")
        case False
        then have "(if x = 13 then drop_lf xs else xs) = xs" using Cons by auto
        then have "split_from cur a = cur # split_from [] xs"
          using True a by simp
        moreover have "split_from [] xs \<noteq> []"
          using Cons by (intro split_from_nonempty) simp
        moreover have "last (split_from [] xs) \<noteq> []"
          using IH [of xs "[]"] a Cons lx "1.prems" by simp
        ultimately show ?thesis by simp
      next
        case crlf: True
        then have ys: "ys \<noteq> []" using a Cons "1.prems" by auto
        then have "last ys = last a" using a Cons by simp
        then have "last (split_from [] ys) \<noteq> []"
          using IH [of ys "[]"] a Cons ys "1.prems" by simp
        moreover have "split_from [] ys \<noteq> []"
          using ys by (rule split_from_nonempty)
        moreover have "split_from cur a = cur # split_from [] ys"
          using crlf a Cons by simp
        ultimately show ?thesis by simp
      qed
    qed
  qed
qed

section \<open>Rendering\<close>

text \<open>
  The matcher finds exactly the placeholders: it succeeds on a text that begins with
  one, what it yields is one, and a match before a placeholder ends before it.
\<close>

lemma takeWhile_stop: "\<not> P y \<Longrightarrow> takeWhile P (xs @ y # ys) = takeWhile P xs"
  by (induction xs) auto

lemma dropWhile_stop: "\<not> P y \<Longrightarrow> dropWhile P (xs @ y # ys) = dropWhile P xs @ y # ys"
  by (induction xs) auto

lemma span_all:
  "list_all P xs \<Longrightarrow> ys = [] \<or> \<not> P (hd ys) \<Longrightarrow>
   takeWhile P (xs @ ys) = xs \<and> dropWhile P (xs @ ys) = ys"
  by (induction xs; cases ys) auto

lemma class_facts:
  "\<not> is_space 123" "\<not> is_name_char 123" "\<not> is_space 125" "\<not> is_name_char 125"
  "is_name_char c \<Longrightarrow> \<not> is_space c" "is_space c \<Longrightarrow> \<not> is_name_char c"
  by (auto simp: is_space_def is_name_char_def)

lemma match_placeholder_at:
  assumes "list_all is_space lead" "list_all is_space trail" "name \<noteq> []"
    "list_all is_name_char name"
  shows "match_placeholder (placeholder lead name trail @ post) =
     Some (name, placeholder lead name trail, post)"
proof -
  let ?r3 = "125 # 125 # post"
  let ?r2 = "trail @ ?r3"
  let ?r1 = "name @ ?r2"
  have h1: "?r1 = [] \<or> \<not> is_space (hd ?r1)"
    using assms(3,4) class_facts(5) by (cases name) auto
  have h2: "?r2 = [] \<or> \<not> is_name_char (hd ?r2)"
    using assms(2) class_facts(4,6) by (cases trail) auto
  have h3: "?r3 = [] \<or> \<not> is_space (hd ?r3)"
    using class_facts(3) by simp
  note s1 = span_all [OF assms(1) h1]
  note s2 = span_all [OF assms(4) h2]
  note s3 = span_all [OF assms(2) h3]
  have "match_placeholder (123 # 123 # lead @ ?r1) =
      Some (name, [123, 123] @ lead @ name @ trail @ [125, 125], post)"
    unfolding match_placeholder_def using s1 s2 s3 assms(3) by (simp add: Let_def)
  then show ?thesis by (simp add: placeholder_def)
qed

lemma match_placeholder_sound:
  assumes "match_placeholder s = Some (k, w, r)"
  shows "\<exists>a b. list_all is_space a \<and> list_all is_space b \<and> k \<noteq> [] \<and>
     list_all is_name_char k \<and> w = placeholder a k b \<and> s = w @ r"
proof -
  from assms obtain r0 where s: "s = 123 # 123 # r0"
    by (cases s; cases "tl s") (auto simp: match_placeholder_def split: if_splits)
  define a where "a = takeWhile is_space r0"
  define r1 where "r1 = dropWhile is_space r0"
  define key where "key = takeWhile is_name_char r1"
  define r2 where "r2 = dropWhile is_name_char r1"
  define b where "b = takeWhile is_space r2"
  define r3 where "r3 = dropWhile is_space r2"
  have m: "match_placeholder s =
      (case r3 of x # y # rest \<Rightarrow>
         if key \<noteq> [] \<and> x = 125 \<and> y = 125
         then Some (key, [123, 123] @ a @ key @ b @ [125, 125], rest) else None
       | _ \<Rightarrow> None)"
    unfolding s match_placeholder_def a_def r1_def key_def r2_def b_def r3_def
    by (simp add: Let_def)
  from assms m obtain rest where r3: "r3 = 125 # 125 # rest" "key \<noteq> []"
    "k = key" "w = [123, 123] @ a @ key @ b @ [125, 125]" "r = rest"
    by (auto split: list.splits if_splits)
  have "r0 = a @ r1" "r1 = key @ r2" "r2 = b @ r3"
    unfolding a_def r1_def key_def r2_def b_def r3_def by simp_all
  then have "s = w @ r" unfolding s r3 by simp
  moreover have "list_all is_space a" "list_all is_space b" "list_all is_name_char key"
    unfolding a_def b_def key_def by (auto simp: list_all_iff dest: set_takeWhileD)
  ultimately show ?thesis using r3 by (auto simp: placeholder_def)
qed

lemma match_placeholder_before:
  assumes "p \<noteq> []"
  shows "match_placeholder (p @ 123 # 123 # t) =
     (case match_placeholder p of None \<Rightarrow> None
      | Some (k, w, r) \<Rightarrow> Some (k, w, r @ 123 # 123 # t))"
proof (cases p)
  case Nil
  with assms show ?thesis by simp
next
  case (Cons a p')
  show ?thesis
  proof (cases p')
    case Nil
    with Cons show ?thesis
      using class_facts(1,2) by (simp add: match_placeholder_def Let_def split: list.splits)
  next
    case c2: (Cons b r0)
    define r3 where "r3 = dropWhile is_space (dropWhile is_name_char (dropWhile is_space r0))"
    have d: "dropWhile is_space (dropWhile is_name_char (dropWhile is_space (r0 @ 123 # 123 # t))) =
        r3 @ 123 # 123 # t"
      and k: "takeWhile is_name_char (dropWhile is_space (r0 @ 123 # 123 # t)) =
        takeWhile is_name_char (dropWhile is_space r0)"
      and w1: "takeWhile is_space (r0 @ 123 # 123 # t) = takeWhile is_space r0"
      and w2: "takeWhile is_space (dropWhile is_name_char (dropWhile is_space (r0 @ 123 # 123 # t))) =
        takeWhile is_space (dropWhile is_name_char (dropWhile is_space r0))"
      unfolding r3_def using class_facts(1,2) by (simp_all add: dropWhile_stop takeWhile_stop)
    show ?thesis
      unfolding Cons c2 append_Cons match_placeholder_def list.case Let_def d k w1 w2
      unfolding r3_def [symmetric]
      by (cases r3; cases "tl r3") (auto)
  qed
qed

lemma render_text_at_placeholder:
  assumes "list_all is_space lead" "list_all is_space trail" "name \<noteq> []"
    "list_all is_name_char name"
  shows "render_text (pre @ placeholder lead name trail @ post) variables =
     render_text pre variables @
     (case variables name of None \<Rightarrow> placeholder lead name trail | Some v \<Rightarrow> v) @
     render_text post variables"
proof (induction pre variables rule: render_text.induct)
  case (1 variables)
  have "placeholder lead name trail @ post = 123 # tl (placeholder lead name trail @ post)"
    by (simp add: placeholder_def)
  then have "render_text (placeholder lead name trail @ post) variables =
      (case variables name of None \<Rightarrow> placeholder lead name trail | Some v \<Rightarrow> v) @
      render_text post variables"
    using match_placeholder_at [OF assms, of post]
    by (metis (no_types, lifting) render_text.simps(2) option.simps(5) prod.case)
  then show ?case by simp
next
  case (2 c cs variables)
  obtain t where t: "placeholder lead name trail @ post = 123 # 123 # t"
    by (simp add: placeholder_def)
  have m: "match_placeholder (c # cs @ placeholder lead name trail @ post) =
     (case match_placeholder (c # cs) of None \<Rightarrow> None
      | Some (k, w, r) \<Rightarrow> Some (k, w, r @ placeholder lead name trail @ post))"
    unfolding t using match_placeholder_before [of "c # cs" t] by simp
  show ?case
  proof (cases "match_placeholder (c # cs)")
    case None
    with m "2.IH"(1) show ?thesis by simp
  next
    case (Some x)
    obtain k w r where x: "x = (k, w, r)" by (cases x)
    have "render_text (r @ placeholder lead name trail @ post) variables =
        render_text r variables @
        (case variables name of None \<Rightarrow> placeholder lead name trail | Some v \<Rightarrow> v) @
        render_text post variables"
      using "2.IH"(2) Some x by simp
    with Some x m show ?thesis
      by (simp split: option.splits)
  qed
qed

lemma render_text_plain:
  assumes "\<forall>p a n b q. list_all is_space a \<and> list_all is_space b \<and> n \<noteq> [] \<and>
      list_all is_name_char n \<longrightarrow> s \<noteq> p @ placeholder a n b @ q"
  shows "render_text s variables = s"
  using assms
proof (induction s)
  case Nil
  then show ?case by simp
next
  case (Cons c cs)
  have n: "match_placeholder (c # cs) = None"
  proof (rule ccontr)
    assume "match_placeholder (c # cs) \<noteq> None"
    then obtain k w r where "match_placeholder (c # cs) = Some (k, w, r)" by auto
    from match_placeholder_sound [OF this] obtain a b where
      "list_all is_space a" "list_all is_space b" "k \<noteq> []" "list_all is_name_char k"
      "c # cs = [] @ placeholder a k b @ r"
      by auto
    with Cons.prems show False by blast
  qed
  have "\<forall>p a n b q. list_all is_space a \<and> list_all is_space b \<and> n \<noteq> [] \<and>
      list_all is_name_char n \<longrightarrow> cs \<noteq> p @ placeholder a n b @ q"
  proof (intro allI impI notI)
    fix p a n b q
    assume "list_all is_space a \<and> list_all is_space b \<and> n \<noteq> [] \<and> list_all is_name_char n"
      and "cs = p @ placeholder a n b @ q"
    then have "c # cs = (c # p) @ placeholder a n b @ q" by simp
    with Cons.prems \<open>list_all is_space a \<and> _\<close> show False by blast
  qed
  from Cons.IH [OF this] n show ?case by simp
qed

text \<open>
  Claim C4. \<open>render_text\<close> is a total function: it returns a text for every text and
  every mapping. Wherever a placeholder stands in the text (\<open>{{\<close>, whitespace, a name of
  one or more capital letters, digits and underscores, whitespace, \<open>}}\<close>), the result
  is the rendering of what is before it, then the value of the name or, for a name that
  is not a key, the placeholder as it is, then the rendering of what is after it. A text
  with no placeholder in it is returned as it is.
\<close>

theorem render_text_placeholders:
  "(list_all is_space lead \<and> list_all is_space trail \<and> name \<noteq> [] \<and>
    list_all is_name_char name \<longrightarrow>
      render_text (pre @ placeholder lead name trail @ post) variables =
        render_text pre variables @
        (case variables name of None \<Rightarrow> placeholder lead name trail | Some v \<Rightarrow> v) @
        render_text post variables) \<and>
   ((\<forall>p a n b q. list_all is_space a \<and> list_all is_space b \<and> n \<noteq> [] \<and>
        list_all is_name_char n \<longrightarrow> s \<noteq> p @ placeholder a n b @ q) \<longrightarrow>
      render_text s variables = s)"
proof (intro conjI impI)
  assume "list_all is_space lead \<and> list_all is_space trail \<and> name \<noteq> [] \<and>
    list_all is_name_char name"
  then show "render_text (pre @ placeholder lead name trail @ post) variables =
        render_text pre variables @
        (case variables name of None \<Rightarrow> placeholder lead name trail | Some v \<Rightarrow> v) @
        render_text post variables"
    by (intro render_text_at_placeholder) simp_all
next
  assume "\<forall>p a n b q. list_all is_space a \<and> list_all is_space b \<and> n \<noteq> [] \<and>
        list_all is_name_char n \<longrightarrow> s \<noteq> p @ placeholder a n b @ q"
  then show "render_text s variables = s" by (rule render_text_plain)
qed

text \<open>
  A name that is a key, whose value is not rendered again; a name that is not; and a text
  without a placeholder.
\<close>

theorem render_text_placeholders_witness:
  "render_text (py ''a{{ X_1}}b'') [py ''X_1'' \<mapsto> py ''{{Y}}''] = py ''a{{Y}}b'' \<and>
   render_text (py ''a{{Y }}b'') [py ''X_1'' \<mapsto> py ''{{Y}}''] = py ''a{{Y }}b'' \<and>
   render_text (py ''a}}b'') [py ''X_1'' \<mapsto> py ''{{Y}}''] = py ''a}}b''"
proof -
  let ?v = "[py ''X_1'' \<mapsto> py ''{{Y}}'']"
  have h1: "list_all is_space (py '' '') \<and> list_all is_space [] \<and> py ''X_1'' \<noteq> [] \<and>
      list_all is_name_char (py ''X_1'')"
    by (simp add: py_def is_space_def is_name_char_def)
  have h2: "list_all is_space [] \<and> list_all is_space (py '' '') \<and> py ''Y'' \<noteq> [] \<and>
      list_all is_name_char (py ''Y'')"
    by (simp add: py_def is_space_def is_name_char_def)
  have h3: "\<forall>p a n b q. list_all is_space a \<and> list_all is_space b \<and> n \<noteq> [] \<and>
      list_all is_name_char n \<longrightarrow> py ''a}}b'' \<noteq> p @ placeholder a n b @ q"
  proof (intro allI impI notI)
    fix p a n b q
    assume "py ''a}}b'' = p @ placeholder a n b @ q"
    then have "set (py ''a}}b'') = set (p @ placeholder a n b @ q)" by simp
    then have "123 \<in> set (py ''a}}b'')" by (simp add: placeholder_def)
    then show False by (simp add: py_def)
  qed
  have p: "render_text (py ''a'') ?v = py ''a''" "render_text (py ''b'') ?v = py ''b''"
    by (simp_all add: py_def match_placeholder_def)
  have v: "?v (py ''X_1'') = Some (py ''{{Y}}'')" "?v (py ''Y'') = None"
    by (simp_all add: py_def)
  have s1: "py ''a{{ X_1}}b'' = py ''a'' @ placeholder (py '' '') (py ''X_1'') [] @ py ''b''"
    and s2: "py ''a{{Y }}b'' = py ''a'' @ placeholder [] (py ''Y'') (py '' '') @ py ''b''"
    and s3: "py ''a{{Y}}b'' = py ''a'' @ py ''{{Y}}'' @ py ''b''"
    by (simp_all add: py_def placeholder_def)
  note t1 = mp [OF conjunct1 [OF render_text_placeholders [where lead = "py '' ''"
        and trail = "[]" and name = "py ''X_1''" and pre = "py ''a''" and post = "py ''b''"
        and variables = ?v]] h1]
  note t2 = mp [OF conjunct1 [OF render_text_placeholders [where lead = "[]"
        and trail = "py '' ''" and name = "py ''Y''" and pre = "py ''a''" and post = "py ''b''"
        and variables = ?v]] h2]
  note t3 = mp [OF conjunct2 [OF render_text_placeholders [where s = "py ''a}}b''"
        and variables = ?v]] h3]
  have 1: "render_text (py ''a{{ X_1}}b'') ?v = py ''a{{Y}}b''"
    unfolding s1 s3 t1 p v option.case ..
  have 2: "render_text (py ''a{{Y }}b'') ?v = py ''a{{Y }}b''"
    unfolding s2 t2 p v option.case ..
  from 1 2 t3 show ?thesis by (intro conjI)
qed

text \<open>Names in small letters, an empty name and a single closing brace are no placeholders.\<close>

lemma render_text_examples:
  "render_text (py ''{{ name }} {{}} {{X} {{{X }}'') [py ''X'' \<mapsto> py ''v''] =
     py ''{{ name }} {{}} {{X} {v''"
  by (simp add: py_def match_placeholder_def is_space_def is_name_char_def)

section \<open>Files: lemmas\<close>

lemma lookup_parent:
  "lookup t p = Some n \<Longrightarrow> p \<noteq> [] \<Longrightarrow> \<exists>ch. lookup t (butlast p) = Some (Dir ch)"
proof (induction t p rule: lookup.induct)
  case (1 n)
  then show ?case by simp
next
  case (2 b m c cs)
  then show ?case by simp
next
  case (3 ch c cs)
  show ?case
  proof (cases cs)
    case Nil
    then show ?thesis by simp
  next
    case (Cons d ds)
    with 3 show ?thesis by (auto split: option.splits)
  qed
qed

lemma store_Dir: "p \<noteq> [] \<Longrightarrow> \<exists>ch'. store (Dir ch) p x = Dir ch'"
  by (cases "(Dir ch, p, x)" rule: store.cases) (auto split: option.splits)

lemma lookup_store_same:
  "lookup t (butlast p) = Some (Dir ch) \<Longrightarrow> p \<noteq> [] \<Longrightarrow> lookup (store t p x) p = Some x"
proof (induction t p x arbitrary: ch rule: store.induct)
  case (1 n x)
  then show ?case by simp
next
  case (2 b m c cs x)
  then show ?case by (cases cs) auto
next
  case (3 ch' c x)
  then show ?case by simp
next
  case (4 ch' c d cs x)
  then show ?case by (auto split: option.splits)
qed

lemma lookup_store_file:
  "lookup t q = Some (File b m) \<Longrightarrow> q \<noteq> p \<Longrightarrow> (\<And>ch. lookup t p \<noteq> Some (Dir ch)) \<Longrightarrow>
   lookup (store t p x) q = Some (File b m)"
proof (induction t p x arbitrary: q rule: store.induct)
  case (1 n x)
  then show ?case by (cases n; cases q) auto
next
  case (2 b' m' c cs x)
  then show ?case by simp
next
  case (3 ch c x)
  show ?case
  proof (cases q)
    case Nil
    with 3 show ?thesis by simp
  next
    case (Cons e es)
    show ?thesis
    proof (cases "e = c")
      case False
      with 3 Cons show ?thesis by simp
    next
      case True
      with 3 Cons obtain k where k: "ch c = Some k" "lookup k es = Some (File b m)"
        by (auto split: option.splits)
      from 3(2) Cons True have "es \<noteq> []" by auto
      with k(2) have "\<exists>ch'. k = Dir ch'" by (cases k; cases es) auto
      with 3(3) [of] k(1) show ?thesis by auto
    qed
  qed
next
  case (4 ch c d cs x)
  show ?case
  proof (cases q)
    case Nil
    with 4 show ?thesis by simp
  next
    case (Cons e es)
    show ?thesis
    proof (cases "ch c")
      case None
      with 4 show ?thesis by simp
    next
      case (Some k)
      show ?thesis
      proof (cases "e = c")
        case False
        with 4 Cons Some show ?thesis by simp
      next
        case True
        have "lookup (store k (d # cs) x) es = Some (File b m)"
        proof (rule "4.IH" [OF Some])
          show "lookup k es = Some (File b m)" using "4.prems"(1) Cons True Some by simp
          show "es \<noteq> d # cs" using "4.prems"(2) Cons True by simp
          show "lookup k (d # cs) \<noteq> Some (Dir ch')" for ch'
            using "4.prems"(3) [of ch'] Some by simp
        qed
        with Cons True Some show ?thesis by simp
      qed
    qed
  qed
qed

lemma lookup_store_absent:
  "lookup t q = None \<Longrightarrow> \<not> prefix q p \<Longrightarrow> (\<And>r. r \<noteq> [] \<Longrightarrow> lookup x r = None) \<Longrightarrow>
   lookup (store t p x) q = None"
proof (induction t p x arbitrary: q rule: store.induct)
  case (1 n x)
  then show ?case by simp
next
  case (2 b' m' c cs x)
  then show ?case by simp
next
  case (3 ch c x)
  show ?case
  proof (cases q)
    case Nil
    with 3 show ?thesis by simp
  next
    case (Cons e es)
    show ?thesis
    proof (cases "e = c")
      case False
      with 3 Cons show ?thesis by simp
    next
      case True
      with "3.prems"(2) Cons have "es \<noteq> []" by auto
      with "3.prems"(3) True Cons show ?thesis by simp
    qed
  qed
next
  case (4 ch c d cs x)
  show ?case
  proof (cases q)
    case Nil
    with 4 show ?thesis by simp
  next
    case (Cons e es)
    show ?thesis
    proof (cases "ch c")
      case None
      with 4 show ?thesis by simp
    next
      case (Some k)
      show ?thesis
      proof (cases "e = c")
        case False
        with 4 Cons Some show ?thesis by simp
      next
        case True
        have "lookup (store k (d # cs) x) es = None"
        proof (rule "4.IH" [OF Some])
          show "lookup k es = None" using "4.prems"(1) Cons True Some by simp
          show "\<not> prefix es (d # cs)" using "4.prems"(2) Cons True by simp
          show "r \<noteq> [] \<Longrightarrow> lookup x r = None" for r by (rule "4.prems"(3))
        qed
        with Cons True Some show ?thesis by simp
      qed
    qed
  qed
qed

lemma stat_root [simp]: "stat w [] = Some (Dir (root w))"
  by (simp add: stat_def)

lemma stat_parent:
  "stat w p = Some n \<Longrightarrow> p \<noteq> [] \<Longrightarrow> \<exists>ch. stat w (parent p) = Some (Dir ch)"
  unfolding stat_def parent_def by (rule lookup_parent)

lemma put_root:
  "p \<noteq> [] \<Longrightarrow> Dir (root (put p x w)) = store (Dir (root w)) p x"
  using store_Dir [of p "root w" x] by (auto simp: put_def)

lemma put_fields [simp]: "stdout (put p x w) = stdout w" "fresh (put p x w) = fresh w"
  by (auto simp: put_def split: node.splits)

lemma stat_put_same:
  "stat w (parent p) = Some (Dir ch) \<Longrightarrow> p \<noteq> [] \<Longrightarrow> stat (put p x w) p = Some x"
  unfolding stat_def parent_def by (simp add: put_root lookup_store_same)

lemma stat_put_file:
  "stat w q = Some (File b m) \<Longrightarrow> q \<noteq> p \<Longrightarrow> p \<noteq> [] \<Longrightarrow> (\<And>ch. stat w p \<noteq> Some (Dir ch)) \<Longrightarrow>
   stat (put p x w) q = Some (File b m)"
  unfolding stat_def by (simp add: put_root lookup_store_file)

lemma stat_put_absent:
  "stat w q = None \<Longrightarrow> \<not> prefix q p \<Longrightarrow> p \<noteq> [] \<Longrightarrow> (\<And>r. r \<noteq> [] \<Longrightarrow> lookup x r = None) \<Longrightarrow>
   stat (put p x w) q = None"
  unfolding stat_def by (simp add: put_root lookup_store_absent)

lemma is_dir_iff: "is_dir w p \<longleftrightarrow> (\<exists>ch. stat w p = Some (Dir ch))"
  by (auto simp: is_dir_def split: option.splits node.splits)

lemma absent_error_cases:
  "absent_error w p = NotADirectoryError p \<or> absent_error w p = FileNotFoundError (NoSuchFile p)"
  by (simp add: absent_error_def)

lemma absent_error_not_decode [simp]:
  "absent_error w p \<noteq> UnicodeDecodeError" "UnicodeDecodeError \<noteq> absent_error w p"
  by (simp_all add: absent_error_def)

lemma os_mkdir_Inr:
  assumes "os_mkdir p w = Inr w'"
  shows "p \<noteq> []" and "stat w p = None" and "\<exists>ch. stat w (parent p) = Some (Dir ch)"
    and "w' = put p (Dir Map.empty) w"
  using assms by (auto simp: os_mkdir_def split: option.splits node.splits)

lemma os_mkdir_is_dir: "os_mkdir p w = Inr w' \<Longrightarrow> is_dir w' p"
  using os_mkdir_Inr [of p w w'] stat_put_same [of w p _ "Dir Map.empty"]
  by (auto simp: is_dir_iff)

lemma lookup_empty_dir: "r \<noteq> [] \<Longrightarrow> lookup (Dir Map.empty) r = None"
  by (cases r) auto

lemma os_mkdir_file:
  "os_mkdir p w = Inr w' \<Longrightarrow> stat w q = Some (File b m) \<Longrightarrow> stat w' q = Some (File b m)"
proof -
  assume a: "os_mkdir p w = Inr w'" and q: "stat w q = Some (File b m)"
  note o = os_mkdir_Inr [OF a]
  from o(2) q have "q \<noteq> p" by auto
  from stat_put_file [OF q this o(1)] o(2,4) show ?thesis by simp
qed

lemma os_mkdir_absent:
  "os_mkdir p w = Inr w' \<Longrightarrow> stat w q = None \<Longrightarrow> \<not> prefix q p \<Longrightarrow> stat w' q = None"
  using os_mkdir_Inr [of p w w'] stat_put_absent [of w q p "Dir Map.empty"] lookup_empty_dir
  by auto

lemma os_mkdir_fields:
  "os_mkdir p w = Inr w' \<Longrightarrow> stdout w' = stdout w \<and> fresh w' = fresh w"
  using os_mkdir_Inr(4) [of p w w'] by simp

lemma mkdir_exist_ok_Inr:
  "mkdir_exist_ok p w = Inr w' \<Longrightarrow> os_mkdir p w = Inr w' \<or> (w' = w \<and> is_dir w p)"
  by (auto simp: mkdir_exist_ok_def split: sum.splits error.splits if_splits)

lemma mkdir_parents_Inr:
  assumes "mkdir_parents p w = Inr w'"
  shows "os_mkdir p w = Inr w' \<or> (w' = w \<and> is_dir w p) \<or>
     (parent p \<noteq> p \<and> (\<exists>x. os_mkdir p w = Inl (FileNotFoundError x)) \<and>
      (\<exists>w1. mkdir_parents (parent p) w = Inr w1 \<and> mkdir_exist_ok p w1 = Inr w'))"
  using assms
  by (subst (asm) mkdir_parents.simps)
    (auto split: sum.splits error.splits if_splits)

lemma mkdir_parents_existing: "is_dir w p \<Longrightarrow> mkdir_parents p w = Inr w"
  by (subst mkdir_parents.simps)
    (auto simp: os_mkdir_def is_dir_iff)

lemma mkdir_parents_props:
  "mkdir_parents p w = Inr w' \<Longrightarrow>
     is_dir w' p \<and> stdout w' = stdout w \<and> fresh w' = fresh w \<and>
     (\<forall>q b m. stat w q = Some (File b m) \<longrightarrow> stat w' q = Some (File b m)) \<and>
     (\<forall>q. stat w q = None \<longrightarrow> \<not> prefix q p \<longrightarrow> stat w' q = None)"
proof (induction p w arbitrary: w' rule: mkdir_parents.induct)
  case (1 p w)
  have step: "is_dir w' p \<and> stdout w' = stdout w0 \<and> fresh w' = fresh w0 \<and>
     (\<forall>q b m. stat w0 q = Some (File b m) \<longrightarrow> stat w' q = Some (File b m)) \<and>
     (\<forall>q. stat w0 q = None \<longrightarrow> \<not> prefix q p \<longrightarrow> stat w' q = None)"
    if "os_mkdir p w0 = Inr w' \<or> (w' = w0 \<and> is_dir w0 p)" for w0
    using that os_mkdir_is_dir [of p w0 w'] os_mkdir_fields [of p w0 w']
      os_mkdir_file [of p w0 w'] os_mkdir_absent [of p w0 w']
    by blast
  from mkdir_parents_Inr [OF "1.prems"]
  consider "os_mkdir p w = Inr w' \<or> (w' = w \<and> is_dir w p)"
    | x w1 where "parent p \<noteq> p" "os_mkdir p w = Inl (FileNotFoundError x)"
        "mkdir_parents (parent p) w = Inr w1" "mkdir_exist_ok p w1 = Inr w'"
    by blast
  then show ?case
  proof cases
    case 1
    then show ?thesis by (rule step)
  next
    case 2
    note ih = "1.IH" [OF 2(2) refl 2(1) 2(3)]
    note st = step [OF mkdir_exist_ok_Inr [OF 2(4)]]
    have pre: "\<not> prefix q (parent p)" if "\<not> prefix q p" for q
    proof
      assume "prefix q (parent p)"
      then have "prefix q p"
        unfolding parent_def using prefixeq_butlast [of p] by (rule prefix_order.trans)
      with that show False by simp
    qed
    show ?thesis
    proof (intro conjI allI impI)
      show "is_dir w' p" "stdout w' = stdout w" "fresh w' = fresh w"
        using ih st by simp_all
      show "stat w' q = Some (File b m)" if "stat w q = Some (File b m)" for q b m
        using that ih st by blast
      show "stat w' q = None" if "stat w q = None" "\<not> prefix q p" for q
        using that pre [of q] ih st by blast
    qed
  qed
qed

lemma ensure_parent_props:
  assumes "ensure_parent d w = (None, w1)"
  shows "is_dir w1 (parent d)" and "stdout w1 = stdout w" and "fresh w1 = fresh w"
    and "stat w q = Some (File b m) \<Longrightarrow> stat w1 q = Some (File b m)"
    and "stat w d = None \<Longrightarrow> stat w1 d = None"
proof -
  from assms have m: "mkdir_parents (parent d) w = Inr w1"
    by (auto simp: ensure_parent_def split: sum.splits)
  note p = mkdir_parents_props [OF m]
  from p show "is_dir w1 (parent d)" "stdout w1 = stdout w" "fresh w1 = fresh w" by auto
  from p show "stat w q = Some (File b m) \<Longrightarrow> stat w1 q = Some (File b m)" by blast
  show "stat w1 d = None" if n: "stat w d = None"
  proof -
    from n have "d \<noteq> []" by auto
    then have "length (butlast d) < length d" by simp
    then have "\<not> prefix d (parent d)"
      unfolding parent_def using prefix_length_le [of d "butlast d"] by linarith
    with p n show ?thesis by blast
  qed
qed

lemma ensure_parent_ready: "is_dir w (parent d) \<Longrightarrow> ensure_parent d w = (None, w)"
  by (simp add: ensure_parent_def mkdir_parents_existing)

lemma ensure_parent_exists: "exists w d \<Longrightarrow> ensure_parent d w = (None, w)"
proof (rule ensure_parent_ready)
  assume "exists w d"
  then obtain n where n: "stat w d = Some n" by (auto simp: exists_def)
  show "is_dir w (parent d)"
  proof (cases "d = []")
    case True
    then show ?thesis by (simp add: parent_def is_dir_iff)
  next
    case False
    from stat_parent [OF n False] show ?thesis by (simp add: is_dir_iff)
  qed
qed

text \<open>
  In the demonstration world: a directory asked for below the regular file
  \<open>repo/.gitignore\<close> is refused at once, and two missing levels are made one after the
  other.
\<close>

lemma os_mkdir_below_file:
  "os_mkdir [py ''repo'', py ''.gitignore'', py ''a'', py ''b''] demo_world =
     Inl (NotADirectoryError [py ''repo'', py ''.gitignore'', py ''a'', py ''b''])"
  "mkdir_parents [py ''repo'', py ''.gitignore'', py ''a'', py ''b''] demo_world =
     Inl (NotADirectoryError [py ''repo'', py ''.gitignore'', py ''a'', py ''b''])"
  "mkdir_parents [py ''repo'', py ''x'', py ''y''] demo_world =
     Inr (put [py ''repo'', py ''x'', py ''y''] (Dir Map.empty)
           (put [py ''repo'', py ''x''] (Dir Map.empty) demo_world))"
  by (simp_all add: mkdir_parents.simps mkdir_exist_ok_def os_mkdir_def absent_error_def stat_def
      parent_def is_dir_def put_def demo_world_def demo_repo_def demo_kit_def py_def)

section \<open>Running a plan and copying one file\<close>

lemma print_fields [simp]:
  "root (print n w) = root w" "stdout (print n w) = stdout w @ [n]" "fresh (print n w) = fresh w"
  by (simp_all add: print_def)

lemma stat_print [simp]: "stat (print n w) p = stat w p"
  by (simp add: stat_def)

lemma exists_print [simp]: "exists (print n w) p = exists w p"
  by (simp add: exists_def)

lemma not_exists_not_dir: "\<not> exists w p \<Longrightarrow> \<not> is_dir w p"
  by (simp add: exists_def is_dir_def)

lemma apply_item_missing:
  assumes "\<not> exists w (src item)"
  shows "apply_item lower copy_tree item force render_exts variables w =
     (if optional item then (None, print (OptionalMissing (src item)) w)
      else (Some (FileNotFoundError
                    (if mode item = py ''merge_gitignore'' then MissingSnippet (src item)
                     else MissingFile (src item))), w))"
  using assms not_exists_not_dir [OF assms] by (simp add: apply_item_def)

text \<open>
  Claim C6. An item whose source path does not exist: marked optional, the run prints the
  notice, leaves the tree as it is and goes on with the remaining items; not marked
  optional, the run ends there with \<open>FileNotFoundError\<close> (missing snippet or missing
  file), in the world it had reached.
\<close>

theorem apply_plan_missing_source:
  assumes "\<not> exists w (src item)"
  shows "(optional item \<longrightarrow>
            apply_plan lower copy_tree (item # items) force render_exts variables w =
              apply_plan lower copy_tree items force render_exts variables
                (print (OptionalMissing (src item)) w) \<and>
            root (print (OptionalMissing (src item)) w) = root w \<and>
            stdout (print (OptionalMissing (src item)) w) = stdout w @ [OptionalMissing (src item)]) \<and>
         (\<not> optional item \<longrightarrow>
            apply_plan lower copy_tree (item # items) force render_exts variables w =
              (Some (FileNotFoundError
                       (if mode item = py ''merge_gitignore'' then MissingSnippet (src item)
                        else MissingFile (src item))), w))"
  by (simp add: apply_item_missing [OF assms])

text \<open>
  Claim C7. When the destination exists and overwrite is off, \<open>copy_file\<close> raises nothing
  and only prints the skip notice: the tree, and with it the content and the metadata of
  the destination, is unchanged.
\<close>

theorem copy_file_skip:
  assumes "exists w d" and "\<not> force"
  shows "copy_file s d force render variables w = (None, print (Skip d) w) \<and>
         root (print (Skip d) w) = root w \<and>
         stat (print (Skip d) w) d = stat w d"
  using assms by (simp add: copy_file_def ensure_parent_exists)


lemma demo_stat_gone: "\<not> exists demo_world [py ''kit'', py ''gone'']"
  by (simp add: exists_def stat_def demo_world_def demo_kit_def py_def)

text \<open>An optional and then a required item with the same missing source.\<close>

theorem apply_plan_missing_source_witness:
  "\<not> exists demo_world [py ''kit'', py ''gone''] \<and>
   apply_plan no_lower no_tree [missing_item True, missing_item False] False [] Map.empty demo_world =
     (Some (FileNotFoundError (MissingFile [py ''kit'', py ''gone''])),
      demo_world\<lparr>stdout := [OptionalMissing [py ''kit'', py ''gone'']]\<rparr>)"
proof -
  have g: "\<not> exists demo_world (src (missing_item True))"
    using demo_stat_gone by (simp add: missing_item_def)
  let ?w = "print (OptionalMissing (src (missing_item True))) demo_world"
  have g': "\<not> exists ?w (src (missing_item False))"
    using demo_stat_gone by (simp add: missing_item_def)
  have m: "mode (missing_item False) \<noteq> py ''merge_gitignore''"
    by (simp add: missing_item_def py_def)
  from apply_plan_missing_source [OF g, of no_lower no_tree "[missing_item False]" False "[]" Map.empty]
    apply_plan_missing_source [OF g', of no_lower no_tree "[]" False "[]" Map.empty]
  have "apply_plan no_lower no_tree [missing_item True, missing_item False] False [] Map.empty
      demo_world = (Some (FileNotFoundError (MissingFile (src (missing_item False)))), ?w)"
    using m by (simp add: missing_item_def)
  moreover have "?w = demo_world\<lparr>stdout := [OptionalMissing [py ''kit'', py ''gone'']]\<rparr>"
    by (simp add: print_def missing_item_def demo_world_def)
  ultimately show ?thesis using demo_stat_gone by (simp add: missing_item_def)
qed

lemma demo_stat_gitignore:
  "stat demo_world [py ''repo'', py ''.gitignore''] = Some (File (py ''abc'') old_meta)"
  by (simp add: stat_def demo_world_def demo_repo_def py_def)

text \<open>The existing \<open>.gitignore\<close> of the repository is not copied over.\<close>

theorem copy_file_skip_witness:
  "exists demo_world [py ''repo'', py ''.gitignore''] \<and>
   copy_file [py ''kit'', py ''snippet''] [py ''repo'', py ''.gitignore''] False True Map.empty
       demo_world =
     (None, demo_world\<lparr>stdout := [Skip [py ''repo'', py ''.gitignore'']]\<rparr>) \<and>
   stat (demo_world\<lparr>stdout := [Skip [py ''repo'', py ''.gitignore'']]\<rparr>)
       [py ''repo'', py ''.gitignore''] = Some (File (py ''abc'') old_meta)"
proof -
  have e: "exists demo_world [py ''repo'', py ''.gitignore'']"
    using demo_stat_gitignore by (simp add: exists_def)
  have p: "print (Skip [py ''repo'', py ''.gitignore'']) demo_world =
      demo_world\<lparr>stdout := [Skip [py ''repo'', py ''.gitignore'']]\<rparr>"
    by (simp add: print_def demo_world_def)
  from copy_file_skip [OF e, of False "[py ''kit'', py ''snippet'']" True Map.empty]
  show ?thesis using e demo_stat_gitignore unfolding p by simp
qed

lemma os_mkdir_error: "os_mkdir p w = Inl e \<Longrightarrow> e \<noteq> UnicodeDecodeError"
  by (auto simp: os_mkdir_def split: option.splits node.splits)

lemma mkdir_exist_ok_error: "mkdir_exist_ok p w = Inl e \<Longrightarrow> e \<noteq> UnicodeDecodeError"
  using os_mkdir_error [of p w]
  by (auto simp: mkdir_exist_ok_def split: sum.splits error.splits if_splits)

lemma mkdir_parents_error: "mkdir_parents p w = Inl e \<Longrightarrow> e \<noteq> UnicodeDecodeError"
proof (induction p w arbitrary: e rule: mkdir_parents.induct)
  case (1 p w)
  from "1.prems" show ?case
    apply (subst (asm) mkdir_parents.simps)
    apply (cases "os_mkdir p w")
    subgoal for a
      using os_mkdir_error [of p w a] "1.IH" mkdir_exist_ok_error
      by (cases a) (auto split: if_splits sum.splits)
    subgoal by simp
    done
qed

lemma ensure_parent_error: "ensure_parent d w = (Some e, w1) \<Longrightarrow> e \<noteq> UnicodeDecodeError"
  using mkdir_parents_error [of "parent d" w]
  by (auto simp: ensure_parent_def split: sum.splits)

lemma raw_copy_error: "raw_copy s d w = (Some e, w1) \<Longrightarrow> e \<noteq> UnicodeDecodeError"
  by (auto simp: raw_copy_def copy2_def copyfile_def copystat_def read_bytes_def open_file_def
      Let_def split: sum.splits option.splits node.splits if_splits)

lemma read_text_undecodable:
  "stat w s = Some (File b m) \<Longrightarrow> decode_utf8 b = None \<Longrightarrow> read_text w s = Inl UnicodeDecodeError"
  by (simp add: read_text_def read_bytes_def)

lemma copy_file_undecodable_raw:
  assumes "stat w s = Some (File b m)" and "decode_utf8 b = None"
  shows "copy_file s d force True variables w = copy_file s d force False variables w"
proof (cases "ensure_parent d w")
  case (Pair r w1)
  show ?thesis
  proof (cases r)
    case (Some e)
    with Pair show ?thesis by (simp add: copy_file_def)
  next
    case None
    with Pair have "stat w1 s = Some (File b m)"
      using ensure_parent_props(4) [of d w w1 s b m] assms(1) by simp
    then have "render_copy s d variables w1 = (Some UnicodeDecodeError, w1)"
      using assms(2) by (simp add: render_copy_def read_text_undecodable)
    with Pair None show ?thesis by (simp add: copy_file_def)
  qed
qed

lemma copy_file_raw_error:
  "copy_file s d force False variables w = (Some e, w1) \<Longrightarrow> e \<noteq> UnicodeDecodeError"
  using ensure_parent_error [of d w] raw_copy_error [of s d]
  by (auto simp: copy_file_def split: prod.splits option.splits if_splits)

lemma append_bytes_file:
  assumes "stat w d = Some (File b0 m0)"
  shows "stat (append_bytes d data w) d = Some (File (b0 @ data) (m0\<lparr>mtime := mtime (fresh w)\<rparr>))"
    and "stdout (append_bytes d data w) = stdout w" and "fresh (append_bytes d data w) = fresh w"
    and "q \<noteq> d \<Longrightarrow> stat w q = Some (File b m) \<Longrightarrow> stat (append_bytes d data w) q = Some (File b m)"
proof -
  from assms have ne: "d \<noteq> []" by auto
  from stat_parent [OF assms ne] obtain ch where p: "stat w (parent d) = Some (Dir ch)" by blast
  show "stat (append_bytes d data w) d = Some (File (b0 @ data) (m0\<lparr>mtime := mtime (fresh w)\<rparr>))"
    using assms by (simp add: append_bytes_def stat_put_same [OF p ne])
  show "stdout (append_bytes d data w) = stdout w" "fresh (append_bytes d data w) = fresh w"
    using assms by (simp_all add: append_bytes_def)
  show "stat (append_bytes d data w) q = Some (File b m)"
    if "q \<noteq> d" "stat w q = Some (File b m)"
    using assms that ne by (simp add: append_bytes_def stat_put_file)
qed

lemma open_file_result:
  assumes "stat w d = None \<and> is_dir w (parent d) \<or> (\<exists>b0 m0. stat w d = Some (File b0 m0))"
  shows "\<exists>w1 m1. open_file True d w = Inr w1 \<and> stat w1 d = Some (File [] m1) \<and>
     stdout w1 = stdout w \<and> fresh w1 = fresh w \<and>
     (\<forall>q b m. q \<noteq> d \<longrightarrow> stat w q = Some (File b m) \<longrightarrow> stat w1 q = Some (File b m))"
proof -
  from assms have ne: "d \<noteq> []" by (auto simp: is_dir_iff)
  from assms consider ch where "stat w d = None" "stat w (parent d) = Some (Dir ch)"
    | b0 m0 where "stat w d = Some (File b0 m0)"
    by (auto simp: is_dir_iff)
  then show ?thesis
  proof cases
    case 1
    then have "open_file True d w = Inr (put d (File [] (fresh w)) w)"
      by (simp add: open_file_def)
    moreover have "stat (put d (File [] (fresh w)) w) d = Some (File [] (fresh w))"
      using 1(2) ne by (rule stat_put_same)
    moreover have "stat (put d (File [] (fresh w)) w) q = Some (File b m)"
      if "q \<noteq> d" "stat w q = Some (File b m)" for q b m
      using that 1(1) ne by (simp add: stat_put_file)
    ultimately show ?thesis by auto
  next
    case 2
    from stat_parent [OF 2 ne] obtain ch where p: "stat w (parent d) = Some (Dir ch)" by blast
    let ?x = "File [] (m0\<lparr>mtime := mtime (fresh w)\<rparr>)"
    have "open_file True d w = Inr (put d ?x w)"
      using 2 by (simp add: open_file_def)
    moreover have "stat (put d ?x w) d = Some ?x"
      using p ne by (rule stat_put_same)
    moreover have "stat (put d ?x w) q = Some (File b m)"
      if "q \<noteq> d" "stat w q = Some (File b m)" for q b m
      using that 2 ne by (simp add: stat_put_file)
    ultimately show ?thesis by auto
  qed
qed

lemma raw_copy_result:
  assumes s: "stat w s = Some (File b m)" and sd: "s \<noteq> d"
    and d: "stat w d = None \<and> is_dir w (parent d) \<or> (\<exists>b0 m0. stat w d = Some (File b0 m0))"
  shows "\<exists>w'. raw_copy s d w = (None, w') \<and> stat w' d = Some (File b m) \<and>
     stdout w' = stdout w @ [Copy d]"
proof -
  from d have nd: "\<not> is_dir w d" by (auto simp: is_dir_iff)
  from d have ne: "d \<noteq> []" by (auto simp: is_dir_iff)
  from open_file_result [OF d] obtain w1 m1 where w1:
    "open_file True d w = Inr w1" "stat w1 d = Some (File [] m1)" "stdout w1 = stdout w"
    "stat w1 s = Some (File b m)"
    using s sd by blast
  let ?w2 = "append_bytes d b w1"
  note a = append_bytes_file [OF w1(2), where data = b]
  from a(1) obtain m2 where w2: "stat ?w2 d = Some (File b m2)" by simp
  from a(4) [OF sd w1(4)] have s2: "stat ?w2 s = Some (File b m)" .
  have cf: "copyfile s d w = Inr ?w2"
    using s sd w1(1) by (simp add: copyfile_def read_bytes_def)
  from stat_parent [OF w2 ne] obtain ch where p: "stat ?w2 (parent d) = Some (Dir ch)" by blast
  have cs: "copystat s d ?w2 = Inr (put d (File b m) ?w2)"
    using s2 w2 by (simp add: copystat_def)
  have "raw_copy s d w = (None, print (Copy d) (put d (File b m) ?w2))"
    using nd cf cs by (simp add: raw_copy_def copy2_def)
  moreover have "stat (print (Copy d) (put d (File b m) ?w2)) d = Some (File b m)"
    using stat_put_same [OF p ne] by simp
  moreover have "stdout (print (Copy d) (put d (File b m) ?w2)) = stdout w @ [Copy d]"
    using a(2) w1(3) by simp
  ultimately show ?thesis by blast
qed

text \<open>
  Claim C8. When the source is a file whose bytes are not valid UTF-8, \<open>copy_file\<close> with
  rendering on does what it does with rendering off: the raw copy. The failed decoding
  never comes out as an error. Where the destination's parent can be ensured and the
  destination is missing, or is another regular file and overwrite is on, the copy
  succeeds: the destination then holds the bytes and the metadata (permission bits and
  modification time) of the source, and the notice printed is the one of a copy.
\<close>

theorem copy_file_undecodable:
  assumes "stat w s = Some (File b m)" and "decode_utf8 b = None"
  shows "copy_file s d force True variables w = copy_file s d force False variables w \<and>
     fst (copy_file s d force True variables w) \<noteq> Some UnicodeDecodeError \<and>
     (ensure_parent d w = (None, w1) \<and>
      (stat w d = None \<or> force \<and> d \<noteq> s \<and> (\<exists>b0 m0. stat w d = Some (File b0 m0))) \<longrightarrow>
        (\<exists>w'. copy_file s d force True variables w = (None, w') \<and>
              stat w' d = Some (File b m) \<and> stdout w' = stdout w @ [Copy d]))"
proof (intro conjI impI)
  show eq: "copy_file s d force True variables w = copy_file s d force False variables w"
    using assms by (rule copy_file_undecodable_raw)
  show "fst (copy_file s d force True variables w) \<noteq> Some UnicodeDecodeError"
    unfolding eq using copy_file_raw_error [of s d force variables w]
    by (cases "copy_file s d force False variables w") auto
  assume h: "ensure_parent d w = (None, w1) \<and>
      (stat w d = None \<or> force \<and> d \<noteq> s \<and> (\<exists>b0 m0. stat w d = Some (File b0 m0)))"
  then have e: "ensure_parent d w = (None, w1)" by simp
  note p = ensure_parent_props [OF e]
  have s1: "stat w1 s = Some (File b m)" using p(4) assms(1) by blast
  from h assms(1) have sd: "s \<noteq> d" by auto
  from h have d1: "stat w1 d = None \<and> is_dir w1 (parent d) \<or> (\<exists>b0 m0. stat w1 d = Some (File b0 m0))"
    using p(1,4,5) by blast
  from h have ns: "(exists w1 d \<and> \<not> force) = False"
    using p(5) by (auto simp: exists_def)
  from raw_copy_result [OF s1 sd d1] obtain w' where
    r: "raw_copy s d w1 = (None, w')" "stat w' d = Some (File b m)" "stdout w' = stdout w1 @ [Copy d]"
    by blast
  have "copy_file s d force False variables w = (None, w')"
    unfolding copy_file_def e using r(1) by (simp only: ns prod.case option.case if_False)
  with r(2,3) p(2) show "\<exists>w'. copy_file s d force True variables w = (None, w') \<and>
      stat w' d = Some (File b m) \<and> stdout w' = stdout w @ [Copy d]"
    unfolding eq by auto
qed


text \<open>The file \<open>logo.md\<close> of the kit starts with the byte \<open>0xFF\<close>.\<close>

theorem copy_file_undecodable_witness:
  "stat demo_world [py ''kit'', py ''logo.md''] = Some (File [255, 216] exec_meta) \<and>
   decode_utf8 [255, 216] = None \<and>
   (\<exists>w'. copy_file [py ''kit'', py ''logo.md''] [py ''repo'', py ''logo.md''] False True Map.empty
            demo_world = (None, w') \<and>
         stat w' [py ''repo'', py ''logo.md''] = Some (File [255, 216] exec_meta) \<and>
         stdout w' = [Copy [py ''repo'', py ''logo.md'']])"
proof -
  have s: "stat demo_world [py ''kit'', py ''logo.md''] = Some (File [255, 216] exec_meta)"
    by (simp add: stat_def demo_world_def demo_kit_def py_def)
  have u: "decode_utf8 [255, 216] = None" by simp
  have d: "stat demo_world [py ''repo'', py ''logo.md''] = None"
    by (simp add: stat_def demo_world_def demo_repo_def py_def)
  have "is_dir demo_world (parent [py ''repo'', py ''logo.md''])"
    by (simp add: is_dir_def parent_def stat_def demo_world_def demo_repo_def py_def)
  then have e: "ensure_parent [py ''repo'', py ''logo.md''] demo_world = (None, demo_world)"
    by (rule ensure_parent_ready)
  have o: "stdout demo_world = []" by (simp add: demo_world_def)
  let ?d = "[py ''repo'', py ''logo.md'']"
  have h: "ensure_parent ?d demo_world = (None, demo_world) \<and>
      (stat demo_world ?d = None \<or>
       False \<and> ?d \<noteq> [py ''kit'', py ''logo.md''] \<and> (\<exists>b0 m0. stat demo_world ?d = Some (File b0 m0)))"
    using e d by (intro conjI disjI1)
  from copy_file_undecodable [OF s u, of ?d False Map.empty demo_world]
  have "ensure_parent ?d demo_world = (None, demo_world) \<and>
      (stat demo_world ?d = None \<or>
       False \<and> ?d \<noteq> [py ''kit'', py ''logo.md''] \<and> (\<exists>b0 m0. stat demo_world ?d = Some (File b0 m0))) \<longrightarrow>
      (\<exists>w'. copy_file [py ''kit'', py ''logo.md''] ?d False True Map.empty demo_world = (None, w') \<and>
         stat w' ?d = Some (File [255, 216] exec_meta) \<and>
         stdout w' = stdout demo_world @ [Copy ?d])"
    by (elim conjE)
  from this h
  have "\<exists>w'. copy_file [py ''kit'', py ''logo.md''] ?d False True Map.empty demo_world = (None, w') \<and>
         stat w' ?d = Some (File [255, 216] exec_meta) \<and>
         stdout w' = stdout demo_world @ [Copy ?d]"
    by (rule mp)
  then have "\<exists>w'. copy_file [py ''kit'', py ''logo.md''] ?d False True Map.empty demo_world = (None, w') \<and>
         stat w' ?d = Some (File [255, 216] exec_meta) \<and>
         stdout w' = [Copy ?d]"
    unfolding o append_Nil .
  with s u show ?thesis by (intro conjI)
qed

section \<open>The gitignore merge\<close>

lemma splitlines_universal: "splitlines (universal_newlines s) = splitlines s"
  by (simp add: splitlines_def split_from_universal)

lemma splitlines_Nil_iff: "splitlines s = [] \<longleftrightarrow> s = []"
  using split_from_nonempty [of s "[]"] by (auto simp: splitlines_def)

lemma strip_Nil [simp]: "strip [] = []"
  by (simp add: strip_def)

lemma to_add_props:
  "l \<in> set (to_add snippet existing) \<Longrightarrow> l \<in> set snippet \<and> l \<noteq> [] \<and> l \<notin> set existing"
  by (auto simp: to_add_def)

text \<open>The lines of a text to which a separator and terminated lines are appended.\<close>

lemma lines_after_append_exact:
  assumes ex: "existing = splitlines old"
    and nb: "list_all (list_all (\<lambda>c. \<not> is_linebreak c)) adds"
    and ne: "list_all (\<lambda>l. l \<noteq> []) adds" and a: "adds \<noteq> []"
  shows "splitlines (old @ separator existing @ join_nl adds @ [10]) =
     existing @ (if separator existing = [] then [] else tail_blank old) @ adds"
proof -
  let ?body = "concat (map (\<lambda>l. l @ [10]) adds)"
  have body: "join_nl adds @ [10] = ?body"
    using a by (rule join_nl_terminated)
  have sb: "split_from [] (?body @ []) = adds @ split_from [] []"
    using nb by (rule split_from_lines)
  then have sb': "split_from [] ?body = adds" by simp
  from a obtain l ls where adds: "adds = l # ls" by (cases adds) auto
  with ne nb obtain c cs where l: "l = c # cs" "\<not> is_linebreak c"
    by (cases l) auto
  then have hd: "?body \<noteq> []" "hd ?body = c" using adds by auto
  show ?thesis
  proof (cases "existing = []")
    case True
    then have "old = []" using ex by (simp add: splitlines_Nil_iff)
    with True sb' body show ?thesis by (simp add: separator_def splitlines_def)
  next
    case False
    then have old: "old \<noteq> []" using ex by (auto simp: splitlines_def)
    show ?thesis
    proof (cases "last existing = []")
      case True
      then have sep: "separator existing = []" by (simp add: separator_def)
      have lb: "is_linebreak (last old)"
        using split_from_last_open [OF old, of "[]"] True ex by (auto simp: splitlines_def)
      have c10: "c \<noteq> 10" using l(2) by auto
      have "split_from [] (butlast old @ last old # ?body) =
          split_from [] (butlast old @ [last old]) @ split_from [] ?body"
        using lb hd c10 by (intro split_from_after_break) auto
      moreover have "butlast old @ last old # ?body = old @ ?body"
        "butlast old @ [last old] = old"
        using old by simp_all
      ultimately have "splitlines (old @ ?body) = existing @ adds"
        using ex sb' by (simp add: splitlines_def)
      with sep body show ?thesis by simp
    next
      case ne': False
      with False have sep: "separator existing = [10]" by (simp add: separator_def)
      have "split_from [] (old @ 10 # ?body) =
          split_from [] old @ (if old = [] then [] else tail_blank old) @ split_from [] ?body"
        using old by (intro split_from_then_lf) simp
      then have "splitlines (old @ [10] @ ?body) = existing @ tail_blank old @ adds"
        using old ex sb' by (simp add: splitlines_def)
      then show ?thesis using sep body by simp
    qed
  qed
qed

lemma lines_after_append:
  assumes ex: "existing = splitlines old"
    and nb: "list_all (list_all (\<lambda>c. \<not> is_linebreak c)) adds"
    and ne: "list_all (\<lambda>l. l \<noteq> []) adds" and a: "adds \<noteq> []"
  shows "\<exists>blank. (blank = [] \<or> blank = [[]]) \<and>
     splitlines (old @ separator existing @ join_nl adds @ [10]) = existing @ blank @ adds"
proof -
  have "tail_blank old = [] \<or> tail_blank old = [[]]"
    by (simp add: tail_blank_def)
  then have "(if separator existing = [] then [] else tail_blank old) = [] \<or>
      (if separator existing = [] then [] else tail_blank old) = [[]]"
    by simp
  with lines_after_append_exact [OF assms] show ?thesis by blast
qed

lemma universal_chars: "set (universal_newlines s) \<subseteq> insert 10 (set s)"
proof (induction s rule: length_induct)
  case (1 s)
  show ?case
  proof (cases s)
    case Nil
    then show ?thesis by simp
  next
    case (Cons c cs)
    have d: "set (drop_lf cs) \<subseteq> set cs" by (cases cs) auto
    have l: "length (drop_lf cs) < length s" "length cs < length s"
      using Cons length_drop_lf [of cs] by auto
    from "1.IH" [rule_format, OF l(1)] "1.IH" [rule_format, OF l(2)] d Cons
    show ?thesis by auto
  qed
qed

lemma split_from_chars:
  "l \<in> set (split_from cur s) \<Longrightarrow> set l \<subseteq> set cur \<union> set s"
proof (induction cur s rule: split_from.induct)
  case (1 cur)
  then show ?case by (auto split: if_splits)
next
  case (2 cur c cs)
  have d: "set (drop_lf cs) \<subseteq> set cs" by (cases cs) auto
  show ?case
  proof (cases "is_linebreak c")
    case True
    with 2 d show ?thesis by (auto split: if_splits)
  next
    case False
    with 2 show ?thesis by auto
  qed
qed

lemma join_nl_chars: "set (join_nl ls) \<subseteq> insert 10 (\<Union> (set ` set ls))"
  by (induction ls rule: join_nl.induct) auto

lemma encodable_10: "encodable 10"
  by (simp add: encodable_def)

lemma encode_utf8_Some: "list_all encodable s \<Longrightarrow> \<exists>data. encode_utf8 s = Some data"
  by (simp add: encode_utf8_def)

lemma encode_utf8_append:
  "encode_utf8 a = Some x \<Longrightarrow> encode_utf8 b = Some y \<Longrightarrow> encode_utf8 (a @ b) = Some (x @ y)"
  by (auto simp: encode_utf8_def split: if_splits)

lemma encode_utf8_lf: "encode_utf8 [10] = Some [10]"
  by (simp add: encode_utf8_def encodable_def encode_char_def)

lemma encode_utf8_Nil: "encode_utf8 [] = Some []"
  by (simp add: encode_utf8_def)

lemma read_text_Inr:
  "read_text w p = Inr t \<longleftrightarrow>
     (\<exists>b m raw. stat w p = Some (File b m) \<and> decode_utf8 b = Some raw \<and> t = universal_newlines raw)"
  by (auto simp: read_text_def read_bytes_def split: option.splits node.splits)

lemma to_add_encodable:
  assumes "decode_utf8 b = Some raw"
  shows "list_all encodable (join_nl (to_add (splitlines (universal_newlines raw)) existing) @ [10])"
proof -
  have r: "\<forall>c\<in>set raw. encodable c"
    using decode_encodable [OF assms] by (simp add: list_all_iff)
  have "set (join_nl (to_add (splitlines (universal_newlines raw)) existing)) \<subseteq> insert 10 (set raw)"
  proof -
    have "set l \<subseteq> insert 10 (set raw)"
      if "l \<in> set (to_add (splitlines (universal_newlines raw)) existing)" for l
    proof -
      from that have "l \<in> set (split_from [] (universal_newlines raw))"
        by (auto simp: to_add_def splitlines_def)
      from split_from_chars [OF this] universal_chars [of raw] show ?thesis by auto
    qed
    with join_nl_chars [of "to_add (splitlines (universal_newlines raw)) existing"]
    show ?thesis by blast
  qed
  with r encodable_10 show ?thesis by (auto simp: list_all_iff)
qed

lemma to_add_no_breaks:
  "list_all (list_all (\<lambda>c. \<not> is_linebreak c)) (to_add (splitlines t) existing)"
  using split_from_no_breaks [of "[]" t]
  by (auto simp: to_add_def splitlines_def list_all_iff)

lemma to_add_nonempty: "list_all (\<lambda>l. l \<noteq> []) (to_add snippet existing)"
  by (auto simp: to_add_def list_all_iff)

lemma open_append_result:
  assumes "stat w d = None \<and> is_dir w (parent d) \<and> old = [] \<or> (\<exists>m0. stat w d = Some (File old m0))"
  shows "\<exists>w2 m2. open_file False d w = Inr w2 \<and> stat w2 d = Some (File old m2) \<and>
     stdout w2 = stdout w \<and> fresh w2 = fresh w \<and>
     (\<forall>q b m. q \<noteq> d \<longrightarrow> stat w q = Some (File b m) \<longrightarrow> stat w2 q = Some (File b m))"
proof -
  from assms have ne: "d \<noteq> []" by (auto simp: is_dir_iff)
  from assms consider ch where "stat w d = None" "stat w (parent d) = Some (Dir ch)" "old = []"
    | m0 where "stat w d = Some (File old m0)"
    by (auto simp: is_dir_iff)
  then show ?thesis
  proof cases
    case 1
    then have "open_file False d w = Inr (put d (File [] (fresh w)) w)"
      by (simp add: open_file_def)
    moreover have "stat (put d (File [] (fresh w)) w) d = Some (File [] (fresh w))"
      using 1(2) ne by (rule stat_put_same)
    moreover have "stat (put d (File [] (fresh w)) w) q = Some (File b m)"
      if "q \<noteq> d" "stat w q = Some (File b m)" for q b m
      using that 1(1) ne by (simp add: stat_put_file)
    ultimately show ?thesis using 1(3) by auto
  next
    case 2
    then have "open_file False d w = Inr w" by (simp add: open_file_def)
    with 2 show ?thesis by auto
  qed
qed

lemma write_str_result:
  assumes "stat w d = Some (File b0 m0)" and "encode_utf8 t = Some data"
  shows "\<exists>w' m'. write_str d t w = (None, w') \<and> stat w' d = Some (File (b0 @ data) m') \<and>
     stdout w' = stdout w \<and> fresh w' = fresh w \<and>
     (\<forall>q b m. q \<noteq> d \<longrightarrow> stat w q = Some (File b m) \<longrightarrow> stat w' q = Some (File b m))"
  using append_bytes_file [OF assms(1), where data = data] assms(2)
  by (auto simp: write_str_def)

lemma merge_gitignore_result:
  assumes e: "ensure_parent d w = (None, w1)"
    and s: "stat w1 s = Some (File sb sm)" "decode_utf8 sb = Some sraw"
    and dd: "stat w1 d = None \<and> old = [] \<and> draw = [] \<or>
             (\<exists>m0. stat w1 d = Some (File old m0)) \<and> decode_utf8 old = Some draw"
  shows "to_add (splitlines sraw) (splitlines draw) = [] \<longrightarrow>
           merge_gitignore s d force w = (None, print MergeNoChanges w1)"
    and "to_add (splitlines sraw) (splitlines draw) \<noteq> [] \<longrightarrow>
           (\<exists>data w' m'.
              encode_utf8 (separator (splitlines draw) @
                           join_nl (to_add (splitlines sraw) (splitlines draw)) @ [10]) = Some data \<and>
              merge_gitignore s d force w = (None, w') \<and>
              stat w' d = Some (File (old @ data) m') \<and>
              stdout w' = stdout w @ [Merge d (length (to_add (splitlines sraw) (splitlines draw)))] \<and>
              fresh w' = fresh w \<and>
              (\<forall>q b m. q \<noteq> d \<longrightarrow> stat w1 q = Some (File b m) \<longrightarrow> stat w' q = Some (File b m)) \<and>
              decode_utf8 (old @ data) =
                Some (draw @ separator (splitlines draw) @
                      join_nl (to_add (splitlines sraw) (splitlines draw)) @ [10]))"
proof -
  let ?existing = "splitlines draw"
  let ?adds = "to_add (splitlines sraw) ?existing"
  let ?body = "join_nl ?adds @ [10]"
  note p = ensure_parent_props [OF e]
  have rs: "read_text w1 s = Inr (universal_newlines sraw)"
    using s by (simp add: read_text_Inr)
  have ex: "(if exists w1 d
             then (case read_text w1 d of Inl e \<Rightarrow> Inl e | Inr dtext \<Rightarrow> Inr (splitlines dtext))
             else Inr []) = Inr ?existing"
  proof (cases "stat w1 d")
    case None
    with dd show ?thesis by (auto simp: exists_def splitlines_def)
  next
    case (Some n)
    with dd obtain m0 where "stat w1 d = Some (File old m0)" "decode_utf8 old = Some draw" by auto
    then have "read_text w1 d = Inr (universal_newlines draw)" "exists w1 d"
      by (simp_all add: read_text_Inr exists_def)
    then show ?thesis by (simp add: splitlines_universal)
  qed
  have m: "merge_gitignore s d force w =
      (if ?adds = [] then (None, print MergeNoChanges w1)
       else
         (case open_file False d w1 of
            Inl e \<Rightarrow> (Some e, w1)
          | Inr w2 \<Rightarrow>
              (case (if ?existing \<noteq> [] \<and> last ?existing \<noteq> []
                     then write_str d [10] w2 else (None, w2)) of
                 (Some e, w3) \<Rightarrow> (Some e, w3)
               | (None, w3) \<Rightarrow>
                   (case write_str d ?body w3 of
                      (Some e, w4) \<Rightarrow> (Some e, w4)
                    | (None, w4) \<Rightarrow> (None, print (Merge d (length ?adds)) w4)))))"
    unfolding merge_gitignore_def e prod.case option.case rs sum.case ex splitlines_universal ..
  show "?adds = [] \<longrightarrow> merge_gitignore s d force w = (None, print MergeNoChanges w1)"
    using m by simp
  show "?adds \<noteq> [] \<longrightarrow>
           (\<exists>data w' m'.
              encode_utf8 (separator ?existing @ ?body) = Some data \<and>
              merge_gitignore s d force w = (None, w') \<and>
              stat w' d = Some (File (old @ data) m') \<and>
              stdout w' = stdout w @ [Merge d (length ?adds)] \<and>
              fresh w' = fresh w \<and>
              (\<forall>q b m. q \<noteq> d \<longrightarrow> stat w1 q = Some (File b m) \<longrightarrow> stat w' q = Some (File b m)) \<and>
              decode_utf8 (old @ data) = Some (draw @ separator ?existing @ ?body))"
  proof
    assume a: "?adds \<noteq> []"
    have "stat w1 d = None \<and> is_dir w1 (parent d) \<and> old = [] \<or> (\<exists>m0. stat w1 d = Some (File old m0))"
      using dd p(1) by auto
    from open_append_result [OF this] obtain w2 m2 where w2:
      "open_file False d w1 = Inr w2" "stat w2 d = Some (File old m2)"
      "stdout w2 = stdout w1" "fresh w2 = fresh w1"
      "\<And>q b m. q \<noteq> d \<Longrightarrow> stat w1 q = Some (File b m) \<Longrightarrow> stat w2 q = Some (File b m)"
      by blast
    have es: "encode_utf8 (separator ?existing) = Some (separator ?existing)"
      by (simp add: separator_def encode_utf8_lf encode_utf8_Nil)
    obtain w3 m3 where w3:
      "(if ?existing \<noteq> [] \<and> last ?existing \<noteq> [] then write_str d [10] w2 else (None, w2)) =
         (None, w3)"
      "stat w3 d = Some (File (old @ separator ?existing) m3)"
      "stdout w3 = stdout w1" "fresh w3 = fresh w1"
      "\<And>q b m. q \<noteq> d \<Longrightarrow> stat w1 q = Some (File b m) \<Longrightarrow> stat w3 q = Some (File b m)"
    proof (cases "?existing \<noteq> [] \<and> last ?existing \<noteq> []")
      case True
      from write_str_result [OF w2(2) encode_utf8_lf] obtain w' m' where
        "write_str d [10] w2 = (None, w')" "stat w' d = Some (File (old @ [10]) m')"
        "stdout w' = stdout w2" "fresh w' = fresh w2"
        "\<And>q b m. q \<noteq> d \<Longrightarrow> stat w2 q = Some (File b m) \<Longrightarrow> stat w' q = Some (File b m)"
        by blast
      with True w2 that [of w' m'] show ?thesis by (simp add: separator_def)
    next
      case False
      with w2 that [of w2 m2] show ?thesis by (simp add: separator_def)
    qed
    from encode_utf8_Some [OF to_add_encodable [OF s(2), of ?existing]]
    obtain bdata where bd: "encode_utf8 (join_nl (to_add (splitlines (universal_newlines sraw)) ?existing) @ [10]) = Some bdata"
      by blast
    then have bd: "encode_utf8 ?body = Some bdata"
      by (simp add: splitlines_universal)
    from write_str_result [OF w3(2) bd] obtain w4 m4 where w4:
      "write_str d ?body w3 = (None, w4)"
      "stat w4 d = Some (File ((old @ separator ?existing) @ bdata) m4)"
      "stdout w4 = stdout w3" "fresh w4 = fresh w3"
      "\<And>q b m. q \<noteq> d \<Longrightarrow> stat w3 q = Some (File b m) \<Longrightarrow> stat w4 q = Some (File b m)"
      by blast
    let ?data = "separator ?existing @ bdata"
    have enc: "encode_utf8 (separator ?existing @ ?body) = Some ?data"
      using es bd by (rule encode_utf8_append)
    have res: "merge_gitignore s d force w = (None, print (Merge d (length ?adds)) w4)"
      unfolding m using a w2(1) w3(1) w4(1) by simp
    have old: "decode_utf8 old = Some draw"
      using dd by auto
    have "decode_utf8 (?data @ []) = map_option ((@) (separator ?existing @ ?body)) (decode_utf8 [])"
      using enc by (rule decode_encode)
    then have "decode_utf8 ?data = Some (separator ?existing @ ?body)" by simp
    with old have dec: "decode_utf8 (old @ ?data) = Some (draw @ separator ?existing @ ?body)"
      by (rule decode_append)
    have "stat (print (Merge d (length ?adds)) w4) d = Some (File (old @ ?data) m4)"
      using w4(2) by simp
    moreover have "stdout (print (Merge d (length ?adds)) w4) = stdout w @ [Merge d (length ?adds)]"
      using w4(3) w3(3) p(2) by simp
    moreover have "fresh (print (Merge d (length ?adds)) w4) = fresh w"
      using w4(4) w3(4) p(3) by simp
    moreover have "\<forall>q b m. q \<noteq> d \<longrightarrow> stat w1 q = Some (File b m) \<longrightarrow>
        stat (print (Merge d (length ?adds)) w4) q = Some (File b m)"
      using w4(5) w3(5) by simp
    ultimately show "\<exists>data w' m'.
              encode_utf8 (separator ?existing @ ?body) = Some data \<and>
              merge_gitignore s d force w = (None, w') \<and>
              stat w' d = Some (File (old @ data) m') \<and>
              stdout w' = stdout w @ [Merge d (length ?adds)] \<and>
              fresh w' = fresh w \<and>
              (\<forall>q b m. q \<noteq> d \<longrightarrow> stat w1 q = Some (File b m) \<longrightarrow> stat w' q = Some (File b m)) \<and>
              decode_utf8 (old @ data) = Some (draw @ separator ?existing @ ?body)"
      using enc res dec by blast
  qed
qed

lemma merge_lines_after_exact:
  assumes "decode_utf8 (old @ data) = Some (draw @ separator (splitlines draw) @ join_nl adds @ [10])"
    and "stat w' d = Some (File (old @ data) m')"
    and "adds = to_add (splitlines sraw) (splitlines draw)" and "adds \<noteq> []"
  shows "\<exists>t. read_text w' d = Inr t \<and>
     splitlines t = splitlines draw @
       (if separator (splitlines draw) = [] then [] else tail_blank draw) @ adds"
proof -
  have "read_text w' d = Inr (universal_newlines (draw @ separator (splitlines draw) @ join_nl adds @ [10]))"
    using assms(1,2) by (simp add: read_text_Inr)
  moreover have "splitlines (draw @ separator (splitlines draw) @ join_nl adds @ [10]) =
      splitlines draw @ (if separator (splitlines draw) = [] then [] else tail_blank draw) @ adds"
    using assms(3,4) to_add_no_breaks [of sraw "splitlines draw"]
      to_add_nonempty [of "splitlines sraw" "splitlines draw"]
    by (intro lines_after_append_exact [OF refl]) simp_all
  ultimately show ?thesis by (simp add: splitlines_universal)
qed

lemma merge_lines_after:
  assumes "decode_utf8 (old @ data) = Some (draw @ separator (splitlines draw) @ join_nl adds @ [10])"
    and "stat w' d = Some (File (old @ data) m')"
    and "adds = to_add (splitlines sraw) (splitlines draw)" and "adds \<noteq> []"
  shows "\<exists>t blank. read_text w' d = Inr t \<and> (blank = [] \<or> blank = [[]]) \<and>
     splitlines t = splitlines draw @ blank @ adds"
proof -
  have "read_text w' d = Inr (universal_newlines (draw @ separator (splitlines draw) @ join_nl adds @ [10]))"
    using assms(1,2) by (simp add: read_text_Inr)
  moreover from lines_after_append [OF refl, of adds draw]
  obtain blank where "blank = [] \<or> blank = [[]]"
    "splitlines (draw @ separator (splitlines draw) @ join_nl adds @ [10]) =
       splitlines draw @ blank @ adds"
    using assms(3,4) to_add_no_breaks [of sraw "splitlines draw"]
      to_add_nonempty [of "splitlines sraw" "splitlines draw"]
    by auto
  ultimately show ?thesis by (auto simp: splitlines_universal)
qed

text \<open>The hypotheses of the merge, read off the calls the source makes.\<close>

lemma merge_inputs:
  assumes rs: "read_text w1 s = Inr stext"
    and dd: "stat w1 d = None \<and> old = [] \<and> existing = [] \<or>
             (\<exists>m0. stat w1 d = Some (File old m0)) \<and>
             (\<exists>dtext. read_text w1 d = Inr dtext \<and> existing = splitlines dtext)"
  obtains sb sm sraw draw where "stat w1 s = Some (File sb sm)" "decode_utf8 sb = Some sraw"
    "splitlines stext = splitlines sraw"
    "stat w1 d = None \<and> old = [] \<and> draw = [] \<or>
       (\<exists>m0. stat w1 d = Some (File old m0)) \<and> decode_utf8 old = Some draw"
    "existing = splitlines draw"
proof -
  from rs obtain sb sm sraw where s: "stat w1 s = Some (File sb sm)" "decode_utf8 sb = Some sraw"
    "stext = universal_newlines sraw"
    by (auto simp: read_text_Inr)
  have sl: "splitlines stext = splitlines sraw"
    using s(3) by (simp add: splitlines_universal)
  from dd consider "stat w1 d = None" "old = []" "existing = []"
    | m0 dtext where "stat w1 d = Some (File old m0)" "read_text w1 d = Inr dtext"
        "existing = splitlines dtext"
    by (elim disjE conjE exE) auto
  then show ?thesis
  proof cases
    case 1
    have "existing = splitlines []" using 1(3) by (simp add: splitlines_def)
    with 1 show ?thesis by (intro that [OF s(1,2) sl, of "[]"]) auto
  next
    case 2
    from 2(1,2) obtain draw where dr: "decode_utf8 old = Some draw" "dtext = universal_newlines draw"
      by (auto simp: read_text_Inr)
    have "existing = splitlines draw" using 2(3) dr(2) by (simp add: splitlines_universal)
    with 2 dr show ?thesis by (intro that [OF s(1,2) sl, of draw]) auto
  qed
qed

text \<open>
  Claim C2. Once the parent directory of the destination is ensured, with the snippet
  readable as text and the destination missing or readable as text (\<open>old\<close> its bytes,
  \<open>draw\<close> the characters they encode): \<open>adds\<close> are the snippet lines that are not blank
  and not among the existing lines, in snippet order. When there are none, the merge only
  prints its notice and nothing is written. Otherwise the bytes appended to the
  destination encode, first, a line feed exactly when there is a last existing line and
  it is not empty, then the lines of \<open>adds\<close> joined by line feeds, then a line feed. The
  bytes that were there stay in front, and the lines of the destination afterwards are
  the existing lines, then an empty line exactly when that first line feed was written
  behind a content ending in a line break other than a carriage return, then \<open>adds\<close>.
  Behind a last line that is not ended the line feed ends it, and no empty line
  appears.
\<close>

theorem merge_gitignore_appends:
  assumes e: "ensure_parent d w = (None, w1)"
    and rs: "read_text w1 s = Inr stext"
    and dd: "stat w1 d = None \<and> old = [] \<and> existing = [] \<or>
             (\<exists>m0. stat w1 d = Some (File old m0)) \<and>
             (\<exists>dtext. read_text w1 d = Inr dtext \<and> existing = splitlines dtext)"
    and dr: "decode_utf8 old = Some draw"
    and adds: "adds = filter (\<lambda>line. strip line \<noteq> [] \<and> line \<notin> set existing) (splitlines stext)"
    and sep: "sep = (if existing \<noteq> [] \<and> last existing \<noteq> [] then [10] else [])"
  shows "(adds = [] \<longrightarrow> merge_gitignore s d force w = (None, print MergeNoChanges w1)) \<and>
         (adds \<noteq> [] \<longrightarrow>
            (\<exists>data w' m' t.
               encode_utf8 (sep @ join_nl adds @ [10]) = Some data \<and>
               merge_gitignore s d force w = (None, w') \<and>
               stat w' d = Some (File (old @ data) m') \<and>
               stdout w' = stdout w @ [Merge d (length adds)] \<and>
               read_text w' d = Inr t \<and>
               splitlines t =
                 existing @
                 (if sep = [10] \<and> is_linebreak (last draw) \<and> last draw \<noteq> 13 then [[]] else []) @
                 adds))"
proof -
  from rs dd obtain sb sm sraw draw0 where i:
    "stat w1 s = Some (File sb sm)" "decode_utf8 sb = Some sraw"
    "splitlines stext = splitlines sraw"
    "stat w1 d = None \<and> old = [] \<and> draw0 = [] \<or>
       (\<exists>m0. stat w1 d = Some (File old m0)) \<and> decode_utf8 old = Some draw0"
    "existing = splitlines draw0"
    by (rule merge_inputs)
  have "draw0 = draw" using i(4) dr by auto
  note i = i [unfolded this]
  have a: "adds = to_add (splitlines sraw) (splitlines draw)"
    using adds i(3,5) by (simp add: to_add_def)
  have s: "sep = separator (splitlines draw)"
    using sep i(5) by (simp add: separator_def)
  have bl: "(if separator (splitlines draw) = [] then [] else tail_blank draw) =
      (if sep = [10] \<and> is_linebreak (last draw) \<and> last draw \<noteq> 13 then [[]] else [])"
    unfolding s by (simp add: separator_def tail_blank_def)
  note r = merge_gitignore_result [OF e i(1,2,4), of force, folded a s]
  show ?thesis
  proof (intro conjI impI)
    assume "adds = []"
    with r(1) show "merge_gitignore s d force w = (None, print MergeNoChanges w1)" by simp
  next
    assume n: "adds \<noteq> []"
    with r(2) obtain data w' m' where c:
      "encode_utf8 (sep @ join_nl adds @ [10]) = Some data"
      "merge_gitignore s d force w = (None, w')"
      "stat w' d = Some (File (old @ data) m')"
      "stdout w' = stdout w @ [Merge d (length adds)]"
      "decode_utf8 (old @ data) = Some (draw @ sep @ join_nl adds @ [10])"
      by blast
    from merge_lines_after_exact [OF c(5) [unfolded s] c(3) a n]
    obtain t where "read_text w' d = Inr t"
      "splitlines t = existing @
         (if sep = [10] \<and> is_linebreak (last draw) \<and> last draw \<noteq> 13 then [[]] else []) @ adds"
      unfolding bl using i(5) by auto
    with c show "\<exists>data w' m' t.
               encode_utf8 (sep @ join_nl adds @ [10]) = Some data \<and>
               merge_gitignore s d force w = (None, w') \<and>
               stat w' d = Some (File (old @ data) m') \<and>
               stdout w' = stdout w @ [Merge d (length adds)] \<and>
               read_text w' d = Inr t \<and>
               splitlines t =
                 existing @
                 (if sep = [10] \<and> is_linebreak (last draw) \<and> last draw \<noteq> 13 then [[]] else []) @
                 adds"
      by blast
  qed
qed

lemma demo_stat_snippet:
  "stat demo_world [py ''kit'', py ''snippet''] =
     Some (File (py ''tmp'' @ [10] @ py '' '' @ [10] @ py ''tmp'' @ [10] @ py ''abc'' @ [10]) old_meta)"
  by (simp add: stat_def demo_world_def demo_kit_def py_def)

lemma demo_stat_extra:
  "stat demo_world [py ''kit'', py ''extra''] = Some (File (py ''new'') old_meta)"
  by (simp add: stat_def demo_world_def demo_kit_def py_def)

lemma demo_decode:
  "decode_utf8 (py ''abc'') = Some (py ''abc'')"
  "decode_utf8 (py ''new'') = Some (py ''new'')"
  "decode_utf8 (py ''tmp'' @ [10] @ py '' '' @ [10] @ py ''tmp'' @ [10] @ py ''abc'' @ [10]) =
     Some (py ''tmp'' @ [10] @ py '' '' @ [10] @ py ''tmp'' @ [10] @ py ''abc'' @ [10])"
  by (simp_all add: py_def)

lemma demo_snippet_text:
  "read_text demo_world [py ''kit'', py ''snippet''] =
     Inr (py ''tmp'' @ [10] @ py '' '' @ [10] @ py ''tmp'' @ [10] @ py ''abc'' @ [10])"
  by (simp add: read_text_def read_bytes_def stat_def demo_world_def demo_kit_def py_def)

lemma demo_extra_text:
  "read_text demo_world [py ''kit'', py ''extra''] = Inr (py ''new'')"
  by (simp add: read_text_def read_bytes_def stat_def demo_world_def demo_kit_def py_def)

lemma demo_gitignore_text:
  "read_text demo_world [py ''repo'', py ''.gitignore''] = Inr (py ''abc'')"
  by (simp add: read_text_def read_bytes_def stat_def demo_world_def demo_repo_def py_def)

lemma demo_snippet_lines:
  "splitlines (py ''tmp'' @ [10] @ py '' '' @ [10] @ py ''tmp'' @ [10] @ py ''abc'' @ [10]) =
     [py ''tmp'', py '' '', py ''tmp'', py ''abc'']"
  by (simp add: splitlines_def py_def is_linebreak_def)

lemma demo_gitignore_lines: "splitlines (py ''abc'') = [py ''abc'']"
  by (simp add: splitlines_def py_def is_linebreak_def)

lemma demo_extra_lines: "splitlines (py ''new'') = [py ''new'']"
  by (simp add: splitlines_def py_def is_linebreak_def)

lemma demo_adds:
  "filter (\<lambda>line. strip line \<noteq> [] \<and> line \<notin> set [py ''abc''])
     [py ''tmp'', py '' '', py ''tmp'', py ''abc''] = [py ''tmp'', py ''tmp'']"
  by (simp add: strip_def is_space_def py_def)

lemma demo_adds_none:
  "filter (\<lambda>line. strip line \<noteq> [] \<and> line \<notin> set [py ''abc'']) [py ''abc''] = []"
  by simp

lemma demo_adds_extra:
  "filter (\<lambda>line. strip line \<noteq> [] \<and>
       line \<notin> set [py ''tmp'', py '' '', py ''tmp'', py ''abc'']) [py ''new''] = [py ''new'']"
  by (simp add: strip_def is_space_def py_def)

lemma demo_data:
  "encode_utf8 ([10] @ join_nl [py ''tmp'', py ''tmp''] @ [10]) =
     Some ([10] @ py ''tmp'' @ [10] @ py ''tmp'' @ [10])"
  by (simp add: encode_utf8_def encodable_def encode_char_def py_def)

lemma demo_data_extra:
  "encode_utf8 ([10] @ join_nl [py ''new''] @ [10]) = Some ([10] @ py ''new'' @ [10])"
  by (simp add: encode_utf8_def encodable_def encode_char_def py_def)

lemma demo_exists_gitignore: "exists demo_world [py ''repo'', py ''.gitignore'']"
  by (simp add: exists_def stat_def demo_world_def demo_repo_def py_def)

lemma demo_exists_snippet: "exists demo_world [py ''kit'', py ''snippet'']"
  by (simp add: exists_def demo_stat_snippet)

text \<open>
  The snippet \<open>tmp\<close>, one space, \<open>tmp\<close>, \<open>abc\<close> merged into the \<open>.gitignore\<close> that holds
  \<open>abc\<close> without a final line break: the line feed ends the line \<open>abc\<close>, and no empty
  line stands between it and the two lines added.
\<close>

lemma demo_merge:
  "\<exists>w' m' t. merge_gitignore [py ''kit'', py ''snippet''] [py ''repo'', py ''.gitignore''] False
        demo_world = (None, w') \<and>
     stat w' [py ''repo'', py ''.gitignore''] =
       Some (File (py ''abc'' @ [10] @ py ''tmp'' @ [10] @ py ''tmp'' @ [10]) m') \<and>
     read_text w' [py ''repo'', py ''.gitignore''] = Inr t \<and>
     splitlines t = [py ''abc'', py ''tmp'', py ''tmp'']"
proof -
  let ?s = "[py ''kit'', py ''snippet'']" and ?d = "[py ''repo'', py ''.gitignore'']"
  let ?sraw = "py ''tmp'' @ [10] @ py '' '' @ [10] @ py ''tmp'' @ [10] @ py ''abc'' @ [10]"
  have e: "ensure_parent ?d demo_world = (None, demo_world)"
    using demo_exists_gitignore by (rule ensure_parent_exists)
  have dd: "stat demo_world ?d = None \<and> py ''abc'' = [] \<and> py ''abc'' = [] \<or>
      (\<exists>m0. stat demo_world ?d = Some (File (py ''abc'') m0)) \<and>
      decode_utf8 (py ''abc'') = Some (py ''abc'')"
    using demo_stat_gitignore demo_decode(1) by simp
  have a: "to_add (splitlines ?sraw) (splitlines (py ''abc'')) = [py ''tmp'', py ''tmp'']"
    unfolding demo_snippet_lines demo_gitignore_lines to_add_def by (rule demo_adds)
  have sp: "separator (splitlines (py ''abc'')) = [10]"
    unfolding demo_gitignore_lines by (simp add: separator_def py_def)
  have tb: "tail_blank (py ''abc'') = []"
    by (simp add: tail_blank_def is_linebreak_def py_def)
  from merge_gitignore_result(2) [OF e demo_stat_snippet demo_decode(3) dd, of False]
  obtain data w' m' where c:
    "encode_utf8 ([10] @ join_nl [py ''tmp'', py ''tmp''] @ [10]) = Some data"
    "merge_gitignore ?s ?d False demo_world = (None, w')"
    "stat w' ?d = Some (File (py ''abc'' @ data) m')"
    "decode_utf8 (py ''abc'' @ data) =
       Some (py ''abc'' @ separator (splitlines (py ''abc'')) @
             join_nl (to_add (splitlines ?sraw) (splitlines (py ''abc''))) @ [10])"
    unfolding a sp by auto
  from c(1) have data: "data = [10] @ py ''tmp'' @ [10] @ py ''tmp'' @ [10]"
    unfolding demo_data by simp
  note m = merge_lines_after_exact [OF c(4,3) refl, unfolded a sp tb]
  from m obtain t where "read_text w' ?d = Inr t"
    "splitlines t = [py ''abc'', py ''tmp'', py ''tmp'']"
    unfolding demo_gitignore_lines by auto
  with c(2,3) data show ?thesis by blast
qed

theorem merge_gitignore_appends_counterexample:
  "\<exists>w' t.
     read_text demo_world [py ''repo'', py ''.gitignore''] = Inr (py ''abc'') \<and>
     splitlines (py ''abc'') = [py ''abc''] \<and> py ''abc'' \<noteq> [] \<and>
     merge_gitignore [py ''kit'', py ''snippet''] [py ''repo'', py ''.gitignore''] False
        demo_world = (None, w') \<and>
     read_text w' [py ''repo'', py ''.gitignore''] = Inr t \<and>
     splitlines t = [py ''abc'', py ''tmp'', py ''tmp''] \<and>
     [] \<notin> set (splitlines t)"
proof -
  from demo_merge obtain w' t where
    "merge_gitignore [py ''kit'', py ''snippet''] [py ''repo'', py ''.gitignore''] False
        demo_world = (None, w')"
    "read_text w' [py ''repo'', py ''.gitignore''] = Inr t"
    "splitlines t = [py ''abc'', py ''tmp'', py ''tmp'']"
    by blast
  moreover have "py ''abc'' \<noteq> []" "py ''tmp'' \<noteq> []" by (simp_all add: py_def)
  ultimately show ?thesis
    using demo_gitignore_text demo_gitignore_lines by auto
qed

text \<open>
  The same merge through the theorem; the one-line snippet \<open>new\<close> merged into the file
  that ends in a line feed, where the empty line appears; and the \<open>.gitignore\<close> merged
  into itself, where there is nothing to add.
\<close>

theorem merge_gitignore_appends_witness:
  "(\<exists>w' m' t. merge_gitignore [py ''kit'', py ''snippet''] [py ''repo'', py ''.gitignore''] False
              demo_world = (None, w') \<and>
     stat w' [py ''repo'', py ''.gitignore''] =
       Some (File (py ''abc'' @ [10] @ py ''tmp'' @ [10] @ py ''tmp'' @ [10]) m') \<and>
     stdout w' = [Merge [py ''repo'', py ''.gitignore''] 2] \<and>
     read_text w' [py ''repo'', py ''.gitignore''] = Inr t \<and>
     splitlines t = [py ''abc'', py ''tmp'', py ''tmp'']) \<and>
   (\<exists>w' m' t. merge_gitignore [py ''kit'', py ''extra''] [py ''kit'', py ''snippet''] False
              demo_world = (None, w') \<and>
     stat w' [py ''kit'', py ''snippet''] =
       Some (File ((py ''tmp'' @ [10] @ py '' '' @ [10] @ py ''tmp'' @ [10] @ py ''abc'' @ [10]) @
                   [10] @ py ''new'' @ [10]) m') \<and>
     stdout w' = [Merge [py ''kit'', py ''snippet''] 1] \<and>
     read_text w' [py ''kit'', py ''snippet''] = Inr t \<and>
     splitlines t = [py ''tmp'', py '' '', py ''tmp'', py ''abc'', [], py ''new'']) \<and>
   merge_gitignore [py ''repo'', py ''.gitignore''] [py ''repo'', py ''.gitignore''] True
       demo_world = (None, print MergeNoChanges demo_world)"
proof -
  let ?s = "[py ''kit'', py ''snippet'']" and ?d = "[py ''repo'', py ''.gitignore'']"
  let ?x = "[py ''kit'', py ''extra'']"
  let ?t = "py ''tmp'' @ [10] @ py '' '' @ [10] @ py ''tmp'' @ [10] @ py ''abc'' @ [10]"
  have e: "ensure_parent ?d demo_world = (None, demo_world)"
    using demo_exists_gitignore by (rule ensure_parent_exists)
  have e2: "ensure_parent ?s demo_world = (None, demo_world)"
    using demo_exists_snippet by (rule ensure_parent_exists)
  have dd: "stat demo_world ?d = None \<and> py ''abc'' = [] \<and> [py ''abc''] = [] \<or>
      (\<exists>m0. stat demo_world ?d = Some (File (py ''abc'') m0)) \<and>
      (\<exists>dtext. read_text demo_world ?d = Inr dtext \<and> [py ''abc''] = splitlines dtext)"
    using demo_stat_gitignore demo_gitignore_text demo_gitignore_lines by auto
  have dd2: "stat demo_world ?s = None \<and> ?t = [] \<and>
        [py ''tmp'', py '' '', py ''tmp'', py ''abc''] = [] \<or>
      (\<exists>m0. stat demo_world ?s = Some (File ?t m0)) \<and>
      (\<exists>dtext. read_text demo_world ?s = Inr dtext \<and>
         [py ''tmp'', py '' '', py ''tmp'', py ''abc''] = splitlines dtext)"
    using demo_stat_snippet demo_snippet_text demo_snippet_lines by auto
  have adds: "[py ''tmp'', py ''tmp''] =
      filter (\<lambda>line. strip line \<noteq> [] \<and> line \<notin> set [py ''abc'']) (splitlines ?t)"
    unfolding demo_snippet_lines demo_adds ..
  have adds2: "[py ''new''] =
      filter (\<lambda>line. strip line \<noteq> [] \<and>
        line \<notin> set [py ''tmp'', py '' '', py ''tmp'', py ''abc'']) (splitlines (py ''new''))"
    unfolding demo_extra_lines demo_adds_extra ..
  have adds3: "[] =
      filter (\<lambda>line. strip line \<noteq> [] \<and> line \<notin> set [py ''abc'']) (splitlines (py ''abc''))"
    unfolding demo_gitignore_lines demo_adds_none ..
  have sep: "[10] = (if [py ''abc''] \<noteq> [] \<and> last [py ''abc''] \<noteq> [] then [10] else [])"
    by (simp add: py_def)
  have sep2: "[10] = (if [py ''tmp'', py '' '', py ''tmp'', py ''abc''] \<noteq> [] \<and>
      last [py ''tmp'', py '' '', py ''tmp'', py ''abc''] \<noteq> [] then [10] else [])"
    by (simp add: py_def)
  have b1: "(if [10::nat] = [10] \<and> is_linebreak (last (py ''abc'')) \<and> last (py ''abc'') \<noteq> 13
      then [[]] else []) = ([] :: pystr list)"
    by (simp add: is_linebreak_def py_def)
  have b2: "(if [10::nat] = [10] \<and> is_linebreak (last ?t) \<and> last ?t \<noteq> 13
      then [[]] else []) = ([[]] :: pystr list)"
    by (simp add: is_linebreak_def py_def)
  have o: "stdout demo_world = []" by (simp add: demo_world_def)
  have n: "[py ''tmp'', py ''tmp''] \<noteq> []" "[py ''new''] \<noteq> []" by simp_all
  from merge_gitignore_appends [OF e demo_snippet_text dd demo_decode(1) adds sep, of False] n(1)
  obtain data w' m' t where r:
    "encode_utf8 ([10] @ join_nl [py ''tmp'', py ''tmp''] @ [10]) = Some data"
    "merge_gitignore ?s ?d False demo_world = (None, w')"
    "stat w' ?d = Some (File (py ''abc'' @ data) m')"
    "stdout w' = stdout demo_world @ [Merge ?d (length [py ''tmp'', py ''tmp''])]"
    "read_text w' ?d = Inr t"
    "splitlines t = [py ''abc''] @ [] @ [py ''tmp'', py ''tmp'']"
    unfolding b1 by blast
  from r(1) have "data = [10] @ py ''tmp'' @ [10] @ py ''tmp'' @ [10]"
    unfolding demo_data by simp
  with r(2-6) o have 1: "\<exists>w' m' t. merge_gitignore ?s ?d False demo_world = (None, w') \<and>
     stat w' ?d = Some (File (py ''abc'' @ [10] @ py ''tmp'' @ [10] @ py ''tmp'' @ [10]) m') \<and>
     stdout w' = [Merge ?d 2] \<and> read_text w' ?d = Inr t \<and>
     splitlines t = [py ''abc'', py ''tmp'', py ''tmp'']"
    by auto
  from merge_gitignore_appends [OF e2 demo_extra_text dd2 demo_decode(3) adds2 sep2, of False] n(2)
  obtain data w' m' t where r:
    "encode_utf8 ([10] @ join_nl [py ''new''] @ [10]) = Some data"
    "merge_gitignore ?x ?s False demo_world = (None, w')"
    "stat w' ?s = Some (File (?t @ data) m')"
    "stdout w' = stdout demo_world @ [Merge ?s (length [py ''new''])]"
    "read_text w' ?s = Inr t"
    "splitlines t = [py ''tmp'', py '' '', py ''tmp'', py ''abc''] @ [[]] @ [py ''new'']"
    unfolding b2 by blast
  from r(1) have "data = [10] @ py ''new'' @ [10]"
    unfolding demo_data_extra by simp
  with r(2-6) o have 2: "\<exists>w' m' t. merge_gitignore ?x ?s False demo_world = (None, w') \<and>
     stat w' ?s = Some (File (?t @ [10] @ py ''new'' @ [10]) m') \<and>
     stdout w' = [Merge ?s 1] \<and> read_text w' ?s = Inr t \<and>
     splitlines t = [py ''tmp'', py '' '', py ''tmp'', py ''abc'', [], py ''new'']"
    by auto
  from merge_gitignore_appends [OF e demo_gitignore_text dd demo_decode(1) adds3 sep, of True]
  have 3: "merge_gitignore ?d ?d True demo_world = (None, print MergeNoChanges demo_world)"
    by simp
  from 1 2 3 show ?thesis by (intro conjI)
qed

lemma merge_gitignore_None:
  assumes "merge_gitignore s d force w = (None, w')"
  obtains w1 sb sm sraw old draw where "ensure_parent d w = (None, w1)"
    "stat w1 s = Some (File sb sm)" "decode_utf8 sb = Some sraw"
    "stat w1 d = None \<and> old = [] \<and> draw = [] \<or>
       (\<exists>m0. stat w1 d = Some (File old m0)) \<and> decode_utf8 old = Some draw"
proof -
  obtain r w1 where ep: "ensure_parent d w = (r, w1)" by (cases "ensure_parent d w")
  have r: "r = None"
    using assms ep by (cases r) (simp_all add: merge_gitignore_def)
  obtain stext where rs: "read_text w1 s = Inr stext"
    using assms ep r by (cases "read_text w1 s") (simp_all add: merge_gitignore_def)
  then obtain sb sm sraw where s: "stat w1 s = Some (File sb sm)" "decode_utf8 sb = Some sraw"
    by (auto simp: read_text_Inr)
  show ?thesis
  proof (cases "exists w1 d")
    case False
    then have "stat w1 d = None" by (simp add: exists_def)
    with ep r s that [of w1 sb sm sraw "[]" "[]"] show ?thesis by simp
  next
    case True
    obtain dtext where "read_text w1 d = Inr dtext"
      using assms ep r rs True by (cases "read_text w1 d") (simp_all add: merge_gitignore_def)
    then obtain old m0 draw where "stat w1 d = Some (File old m0)" "decode_utf8 old = Some draw"
      by (auto simp: read_text_Inr)
    with ep r s that [of w1 sb sm sraw old draw] show ?thesis by auto
  qed
qed

lemma to_add_Nil_iff:
  "to_add snippet existing = [] \<longleftrightarrow> (\<forall>l\<in>set snippet. strip l \<noteq> [] \<longrightarrow> l \<in> set existing)"
  by (auto simp: to_add_def filter_empty_conv)

lemma to_add_again:
  assumes "set existing \<union> set (to_add snippet existing) \<subseteq> set existing'"
  shows "to_add snippet existing' = []"
  unfolding to_add_Nil_iff
proof (intro ballI impI)
  fix l
  assume "l \<in> set snippet" "strip l \<noteq> []"
  then have "l \<in> set existing \<or> l \<in> set (to_add snippet existing)"
    by (simp add: to_add_def)
  with assms show "l \<in> set existing'" by blast
qed

lemma merge_gitignore_again:
  assumes "merge_gitignore s d force w = (None, w')"
  shows "merge_gitignore s d force2 w' = (None, print MergeNoChanges w')"
proof -
  from assms obtain w1 sb sm sraw old draw where i:
    "ensure_parent d w = (None, w1)"
    "stat w1 s = Some (File sb sm)" "decode_utf8 sb = Some sraw"
    "stat w1 d = None \<and> old = [] \<and> draw = [] \<or>
       (\<exists>m0. stat w1 d = Some (File old m0)) \<and> decode_utf8 old = Some draw"
    by (rule merge_gitignore_None)
  let ?adds = "to_add (splitlines sraw) (splitlines draw)"
  note r = merge_gitignore_result [OF i, of force]
  note p = ensure_parent_props [OF i(1)]
  show ?thesis
  proof (cases "?adds = []")
    case True
    with r(1) assms have w': "w' = print MergeNoChanges w1" by simp
    have "is_dir w' (parent d)" using p(1) by (simp add: w' is_dir_def)
    then have e': "ensure_parent d w' = (None, w')" by (rule ensure_parent_ready)
    have s': "stat w' s = Some (File sb sm)" using i(2) by (simp add: w')
    have d': "stat w' d = None \<and> old = [] \<and> draw = [] \<or>
       (\<exists>m0. stat w' d = Some (File old m0)) \<and> decode_utf8 old = Some draw"
      using i(4) by (simp add: w')
    from merge_gitignore_result(1) [OF e' s' i(3) d', of force2] True show ?thesis by simp
  next
    case False
    with r(2) assms obtain data m' where c:
      "stat w' d = Some (File (old @ data) m')"
      "\<And>q b m. q \<noteq> d \<Longrightarrow> stat w1 q = Some (File b m) \<Longrightarrow> stat w' q = Some (File b m)"
      "decode_utf8 (old @ data) = Some (draw @ separator (splitlines draw) @ join_nl ?adds @ [10])"
      by auto
    have sd: "s \<noteq> d"
    proof
      assume "s = d"
      with i(2,3,4) have "draw = sraw" by auto
      then have "?adds = []" by (auto simp: to_add_def)
      with False show False by simp
    qed
    have "exists w' d" using c(1) by (simp add: exists_def)
    then have e': "ensure_parent d w' = (None, w')" by (rule ensure_parent_exists)
    have s': "stat w' s = Some (File sb sm)" using c(2) [OF sd i(2)] .
    let ?draw' = "draw @ separator (splitlines draw) @ join_nl ?adds @ [10]"
    have d': "stat w' d = None \<and> old @ data = [] \<and> ?draw' = [] \<or>
       (\<exists>m0. stat w' d = Some (File (old @ data) m0)) \<and> decode_utf8 (old @ data) = Some ?draw'"
      using c(1,3) by auto
    from lines_after_append [OF refl to_add_no_breaks to_add_nonempty False, of draw]
    obtain blank where "splitlines ?draw' = splitlines draw @ blank @ ?adds" by blast
    then have "set (splitlines draw) \<union> set ?adds \<subseteq> set (splitlines ?draw')" by auto
    then have "to_add (splitlines sraw) (splitlines ?draw') = []" by (rule to_add_again)
    with merge_gitignore_result(1) [OF e' s' i(3) d', of force2] show ?thesis by simp
  qed
qed

lemma merge_gitignore_prefix:
  assumes "merge_gitignore s d force w = (None, w')" and "stat w d = Some (File old m0)"
  shows "\<exists>data m'. stat w' d = Some (File (old @ data) m')"
proof -
  from assms(1) obtain w1 sb sm sraw old0 draw where i:
    "ensure_parent d w = (None, w1)"
    "stat w1 s = Some (File sb sm)" "decode_utf8 sb = Some sraw"
    "stat w1 d = None \<and> old0 = [] \<and> draw = [] \<or>
       (\<exists>m0. stat w1 d = Some (File old0 m0)) \<and> decode_utf8 old0 = Some draw"
    by (rule merge_gitignore_None)
  have "exists w d" using assms(2) by (simp add: exists_def)
  then have "ensure_parent d w = (None, w)" by (rule ensure_parent_exists)
  with i(1) have w1: "w1 = w" by simp
  with i(4) assms(2) have old: "old0 = old" by auto
  note r = merge_gitignore_result [OF i, of force]
  show ?thesis
  proof (cases "to_add (splitlines sraw) (splitlines draw) = []")
    case True
    with r(1) assms(1) have "w' = print MergeNoChanges w1" by simp
    then have "stat w' d = Some (File (old @ []) m0)"
      using assms(2) w1 by simp
    then show ?thesis by blast
  next
    case False
    with r(2) assms(1) show ?thesis unfolding old by auto
  qed
qed

text \<open>
  Claim C3. After a merge that ended normally, merging the same snippet into the same
  destination again, with either value of the overwrite flag, only prints the notice of
  no changes: the tree stays as the first merge left it. The flag is never read, so a
  merge does the same with it on and off. A merge only appends: the bytes the
  destination had stay in front. And a merge whose snippet has no non-blank line outside
  the existing lines appends nothing.
\<close>

theorem merge_gitignore_idempotent:
  assumes "merge_gitignore s d force w = (None, w')"
  shows "merge_gitignore s d force' w' = (None, print MergeNoChanges w') \<and>
         root (print MergeNoChanges w') = root w' \<and>
         merge_gitignore s d (\<not> force) w = merge_gitignore s d force w \<and>
         (stat w d = Some (File old om) \<longrightarrow> (\<exists>data m'. stat w' d = Some (File (old @ data) m'))) \<and>
         (ensure_parent d' v = (None, v') \<and> read_text v' s' = Inr stext \<and>
          read_text v' d' = Inr dtext \<and>
          (\<forall>l\<in>set (splitlines stext). strip l \<noteq> [] \<longrightarrow> l \<in> set (splitlines dtext)) \<longrightarrow>
            merge_gitignore s' d' force v = (None, print MergeNoChanges v'))"
proof (intro conjI impI)
  show "merge_gitignore s d force' w' = (None, print MergeNoChanges w')"
    using assms by (rule merge_gitignore_again)
  show "root (print MergeNoChanges w') = root w'" by simp
  show "merge_gitignore s d (\<not> force) w = merge_gitignore s d force w"
    by (simp add: merge_gitignore_def)
  show "\<exists>data m'. stat w' d = Some (File (old @ data) m')"
    if "stat w d = Some (File old om)"
    using assms that by (rule merge_gitignore_prefix)
  assume h: "ensure_parent d' v = (None, v') \<and> read_text v' s' = Inr stext \<and>
          read_text v' d' = Inr dtext \<and>
          (\<forall>l\<in>set (splitlines stext). strip l \<noteq> [] \<longrightarrow> l \<in> set (splitlines dtext))"
  then obtain sb sm sraw old m0 draw where i:
    "stat v' s' = Some (File sb sm)" "decode_utf8 sb = Some sraw" "stext = universal_newlines sraw"
    "stat v' d' = Some (File old m0)" "decode_utf8 old = Some draw" "dtext = universal_newlines draw"
    by (auto simp: read_text_Inr)
  have "to_add (splitlines sraw) (splitlines draw) = []"
    using h i(3,6) by (simp add: to_add_Nil_iff splitlines_universal)
  moreover have "stat v' d' = None \<and> old = [] \<and> draw = [] \<or>
       (\<exists>m0. stat v' d' = Some (File old m0)) \<and> decode_utf8 old = Some draw"
    using i(4,5) by auto
  ultimately show "merge_gitignore s' d' force v = (None, print MergeNoChanges v')"
    using merge_gitignore_result(1) [OF _ i(1,2), of d' v old draw force] h by simp
qed

text \<open>
  The demonstration merge run twice, and the snippet merged into itself.
\<close>

theorem merge_gitignore_idempotent_witness:
  "(\<exists>w'. merge_gitignore [py ''kit'', py ''snippet''] [py ''repo'', py ''.gitignore''] False
           demo_world = (None, w') \<and>
         merge_gitignore [py ''kit'', py ''snippet''] [py ''repo'', py ''.gitignore''] True w' =
           (None, print MergeNoChanges w') \<and>
         root (print MergeNoChanges w') = root w' \<and>
         (\<exists>data m'. stat w' [py ''repo'', py ''.gitignore''] = Some (File (py ''abc'' @ data) m'))) \<and>
   merge_gitignore [py ''kit'', py ''snippet''] [py ''kit'', py ''snippet''] False demo_world =
     (None, print MergeNoChanges demo_world)"
proof -
  let ?s = "[py ''kit'', py ''snippet'']" and ?d = "[py ''repo'', py ''.gitignore'']"
  let ?t = "py ''tmp'' @ [10] @ py '' '' @ [10] @ py ''tmp'' @ [10] @ py ''abc'' @ [10]"
  from demo_merge obtain w' where
    m: "merge_gitignore ?s ?d False demo_world = (None, w')" by blast
  have e: "ensure_parent ?s demo_world = (None, demo_world)"
    using demo_exists_snippet by (rule ensure_parent_exists)
  have h: "ensure_parent ?s demo_world = (None, demo_world) \<and>
      read_text demo_world ?s = Inr ?t \<and> read_text demo_world ?s = Inr ?t \<and>
      (\<forall>l\<in>set (splitlines ?t). strip l \<noteq> [] \<longrightarrow> l \<in> set (splitlines ?t))"
    using e demo_snippet_text by blast
  note t = merge_gitignore_idempotent [OF m, where force' = True and d' = ?s and v = demo_world
      and v' = demo_world and s' = ?s and stext = ?t and dtext = ?t and old = "py ''abc''"
      and om = old_meta]
  from t have 1: "merge_gitignore ?s ?d True w' = (None, print MergeNoChanges w')"
    by (rule conjunct1)
  have 2: "root (print MergeNoChanges w') = root w'"
    by (rule conjunct1 [OF conjunct2 [OF t]])
  have 3: "\<exists>data m'. stat w' ?d = Some (File (py ''abc'' @ data) m')"
    by (rule mp [OF conjunct1 [OF conjunct2 [OF conjunct2 [OF conjunct2 [OF t]]]]
          demo_stat_gitignore])
  have 4: "merge_gitignore ?s ?s False demo_world = (None, print MergeNoChanges demo_world)"
    by (rule mp [OF conjunct2 [OF conjunct2 [OF conjunct2 [OF conjunct2 [OF t]]]] h])
  from m 1 2 3 4 show ?thesis by blast
qed

lemma count_list_filter:
  "count_list (filter P xs) x = (if P x then count_list xs x else 0)"
  by (induction xs) auto

text \<open>
  Claim C10. The snippet is not de-duplicated against itself: a non-blank snippet line
  that is not among the existing lines is kept by \<open>to_add\<close> once for each time it stands
  in the snippet, and after the merge the destination has it that many times.
\<close>

theorem merge_gitignore_keeps_duplicates:
  assumes e: "ensure_parent d w = (None, w1)"
    and rs: "read_text w1 s = Inr stext"
    and dd: "stat w1 d = None \<and> old = [] \<and> existing = [] \<or>
             (\<exists>m0. stat w1 d = Some (File old m0)) \<and>
             (\<exists>dtext. read_text w1 d = Inr dtext \<and> existing = splitlines dtext)"
    and l: "l \<in> set (splitlines stext)" "strip l \<noteq> []" "l \<notin> set existing"
  shows "count_list (to_add (splitlines stext) existing) l = count_list (splitlines stext) l \<and>
         (\<exists>w' t. merge_gitignore s d force w = (None, w') \<and> read_text w' d = Inr t \<and>
                 count_list (splitlines t) l = count_list (splitlines stext) l)"
proof -
  from rs dd obtain sb sm sraw draw where i:
    "stat w1 s = Some (File sb sm)" "decode_utf8 sb = Some sraw"
    "splitlines stext = splitlines sraw"
    "stat w1 d = None \<and> old = [] \<and> draw = [] \<or>
       (\<exists>m0. stat w1 d = Some (File old m0)) \<and> decode_utf8 old = Some draw"
    "existing = splitlines draw"
    by (rule merge_inputs)
  let ?adds = "to_add (splitlines sraw) (splitlines draw)"
  have cnt: "count_list ?adds l = count_list (splitlines sraw) l"
    using l(2,3) i(5) by (simp add: to_add_def count_list_filter)
  have "l \<in> set ?adds" using l i(3,5) by (simp add: to_add_def)
  then have n: "?adds \<noteq> []" by auto
  with merge_gitignore_result(2) [OF e i(1,2,4), of force] obtain data w' m' where c:
    "merge_gitignore s d force w = (None, w')"
    "stat w' d = Some (File (old @ data) m')"
    "decode_utf8 (old @ data) = Some (draw @ separator (splitlines draw) @ join_nl ?adds @ [10])"
    by blast
  from merge_lines_after [OF c(3,2) refl n]
  obtain t blank where t: "read_text w' d = Inr t" "blank = [] \<or> blank = [[]]"
    "splitlines t = splitlines draw @ blank @ ?adds"
    by blast
  have "l \<noteq> []" using l(2) by auto
  with t(2) have "count_list blank l = 0" by auto
  moreover have "count_list (splitlines draw) l = 0"
    using l(3) i(5) by (simp add: count_list_0_iff)
  ultimately have "count_list (splitlines t) l = count_list (splitlines stext) l"
    using t(3) cnt i(3) by simp
  with c(1) t(1) cnt i(3,5) show ?thesis by auto
qed

text \<open>The line \<open>tmp\<close> stands twice in the snippet and twice in the merged file.\<close>

theorem merge_gitignore_keeps_duplicates_witness:
  "count_list [py ''tmp'', py '' '', py ''tmp'', py ''abc''] (py ''tmp'') = 2 \<and>
   (\<exists>w' t. merge_gitignore [py ''kit'', py ''snippet''] [py ''repo'', py ''.gitignore''] False
            demo_world = (None, w') \<and>
          read_text w' [py ''repo'', py ''.gitignore''] = Inr t \<and>
          count_list (splitlines t) (py ''tmp'') = 2)"
proof -
  let ?s = "[py ''kit'', py ''snippet'']" and ?d = "[py ''repo'', py ''.gitignore'']"
  let ?t = "py ''tmp'' @ [10] @ py '' '' @ [10] @ py ''tmp'' @ [10] @ py ''abc'' @ [10]"
  have e: "ensure_parent ?d demo_world = (None, demo_world)"
    using demo_exists_gitignore by (rule ensure_parent_exists)
  have dd: "stat demo_world ?d = None \<and> py ''abc'' = [] \<and> [py ''abc''] = [] \<or>
      (\<exists>m0. stat demo_world ?d = Some (File (py ''abc'') m0)) \<and>
      (\<exists>dtext. read_text demo_world ?d = Inr dtext \<and> [py ''abc''] = splitlines dtext)"
    using demo_stat_gitignore demo_gitignore_text demo_gitignore_lines by auto
  have l: "py ''tmp'' \<in> set (splitlines ?t)" "strip (py ''tmp'') \<noteq> []"
    "py ''tmp'' \<notin> set [py ''abc'']"
    unfolding demo_snippet_lines by (simp_all add: strip_def is_space_def py_def)
  have c: "count_list [py ''tmp'', py '' '', py ''tmp'', py ''abc''] (py ''tmp'') = 2"
    by (simp add: py_def)
  note t = merge_gitignore_keeps_duplicates [OF e demo_snippet_text dd l, of False,
      unfolded demo_snippet_lines c]
  from c conjunct2 [OF t] show ?thesis by (rule conjI)
qed

end
